theory Spec2Isabelle
  imports Complex_Main "HOL-Library.Word" "HOL-Library.Char_ord" "HOL-Library.List_Lexorder"
    "HOL-Library.Sublist" "HOL-Library.Log_Nat"
begin

section \<open>gitnot: a shallow embedding of main.go\<close>

text \<open>
  The program keeps its whole state on disk under \<^verbatim>\<open>.gitnot/\<close>. The embedding follows
  main.go function by function. Paths, file contents and digests are Go strings, that is
  byte sequences, modelled as \<^typ>\<open>string\<close>. A Go \<^verbatim>\<open>map[string]string\<close> is an association
  list read with \<^const>\<open>map_of\<close>; ranging over the map visits every key once, in an order
  Go leaves open, and the order of the list stands for one such order.
\<close>

subsection \<open>Strings, as main.go uses Go's library\<close>

type_synonym path = string

type_synonym digest = string

type_synonym hashmap = "(path \<times> digest) list"

text \<open>\<^verbatim>\<open>strings.HasPrefix\<close>, \<^verbatim>\<open>strings.TrimPrefix\<close> and \<^verbatim>\<open>strings.Split\<close> on a separator of one byte.\<close>

definition HasPrefix :: "string \<Rightarrow> string \<Rightarrow> bool" where
  "HasPrefix s p = prefix p s"

definition TrimPrefix :: "string \<Rightarrow> string \<Rightarrow> string" where
  "TrimPrefix s p = (if HasPrefix s p then drop (length p) s else s)"

fun Split :: "char \<Rightarrow> string \<Rightarrow> string list" where
  "Split sep [] = [[]]"
| "Split sep (c # cs) =
     (if c = sep then [] # Split sep cs
      else (case Split sep cs of [] \<Rightarrow> [[c]] | l # ls \<Rightarrow> (c # l) # ls))"

text \<open>
  \<^verbatim>\<open>strings.TrimSpace\<close> and \<^verbatim>\<open>strings.Fields\<close> cut at the runes for which \<^verbatim>\<open>unicode.IsSpace\<close> holds.
  On bytes these are the six ASCII characters and the UTF-8 encodings of U+0085, U+00A0,
  U+1680, U+2000 to U+200A, U+2028, U+2029, U+202F, U+205F and U+3000. Every one of the longer
  encodings begins with a lead byte and Go's decoder moves on by one byte at an invalid
  sequence, so a rune of this list is decoded exactly where its bytes stand.
\<close>

definition spaceRunes :: "string list" where
  "spaceRunes =
    [[CHR 0x09], [CHR 0x0A], [CHR 0x0B], [CHR 0x0C], [CHR 0x0D], [CHR 0x20],
     [CHR 0xC2, CHR 0x85], [CHR 0xC2, CHR 0xA0],
     [CHR 0xE1, CHR 0x9A, CHR 0x80],
     [CHR 0xE2, CHR 0x80, CHR 0x80], [CHR 0xE2, CHR 0x80, CHR 0x81],
     [CHR 0xE2, CHR 0x80, CHR 0x82], [CHR 0xE2, CHR 0x80, CHR 0x83],
     [CHR 0xE2, CHR 0x80, CHR 0x84], [CHR 0xE2, CHR 0x80, CHR 0x85],
     [CHR 0xE2, CHR 0x80, CHR 0x86], [CHR 0xE2, CHR 0x80, CHR 0x87],
     [CHR 0xE2, CHR 0x80, CHR 0x88], [CHR 0xE2, CHR 0x80, CHR 0x89],
     [CHR 0xE2, CHR 0x80, CHR 0x8A],
     [CHR 0xE2, CHR 0x80, CHR 0xA8], [CHR 0xE2, CHR 0x80, CHR 0xA9],
     [CHR 0xE2, CHR 0x80, CHR 0xAF], [CHR 0xE2, CHR 0x81, CHR 0x9F],
     [CHR 0xE3, CHR 0x80, CHR 0x80]]"

text \<open>The number of bytes of the rune of the list that the text begins with, 0 when there is none.\<close>

definition runeLen :: "string list \<Rightarrow> string \<Rightarrow> nat" where
  "runeLen runes s = (case find (\<lambda>r. prefix r s) runes of None \<Rightarrow> 0 | Some r \<Rightarrow> length r)"

fun trimRunes :: "string list \<Rightarrow> string \<Rightarrow> string" where
  "trimRunes runes [] = []"
| "trimRunes runes (c # cs) =
     (if runeLen runes (c # cs) = 0 then c # cs
      else trimRunes runes (drop (runeLen runes (c # cs) - 1) cs))"

text \<open>Trailing runes are found from the end, so the right side is trimmed on the reversed bytes.\<close>

definition TrimSpace :: "string \<Rightarrow> string" where
  "TrimSpace s = rev (trimRunes (map rev spaceRunes) (rev (trimRunes spaceRunes s)))"

text \<open>\<^verbatim>\<open>strings.Fields\<close>: the maximal runs without a space rune; \<open>cur\<close> is the field being read.\<close>

fun fieldsFrom :: "string \<Rightarrow> string \<Rightarrow> string list" where
  "fieldsFrom cur [] = (if cur = [] then [] else [cur])"
| "fieldsFrom cur (c # cs) =
     (if runeLen spaceRunes (c # cs) = 0 then fieldsFrom (cur @ [c]) cs
      else (if cur = [] then [] else [cur])
           @ fieldsFrom [] (drop (runeLen spaceRunes (c # cs) - 1) cs))"

definition Fields :: "string \<Rightarrow> string list" where
  "Fields s = fieldsFrom [] s"

definition isDigit :: "char \<Rightarrow> bool" where
  "isDigit c = (48 \<le> (of_char c :: nat) \<and> (of_char c :: nat) \<le> 57)"

definition digitVal :: "char \<Rightarrow> int" where
  "digitVal c = int (of_char c) - 48"

text \<open>
  \<^verbatim>\<open>strconv.Atoi\<close> on a 64-bit platform: an optional sign, then one or more decimal digits;
  anything else, and a value outside the range of \<^verbatim>\<open>int\<close>, is an error.
\<close>

definition Atoi :: "string \<Rightarrow> int option" where
  "Atoi s =
     (let neg = HasPrefix s ''-'';
          ds = (if HasPrefix s ''-'' \<or> HasPrefix s ''+'' then tl s else s);
          n = foldl (\<lambda>a c. 10 * a + digitVal c) 0 ds;
          v = (if neg then - n else n)
      in if ds = [] \<or> \<not> list_all isDigit ds then None
         else if v < - (2 ^ 63) \<or> 2 ^ 63 - 1 < v then None
         else Some v)"

function digits :: "nat \<Rightarrow> string" where
  "digits n = (if n < 10 then [''0123456789'' ! n]
               else digits (n div 10) @ [''0123456789'' ! (n mod 10)])"
  by pat_completeness auto
termination
  by (relation "measure id") auto
declare digits.simps [simp del]

text \<open>The verb \<^verbatim>\<open>%d\<close> of \<^verbatim>\<open>fmt.Sprintf\<close>.\<close>

definition Itoa :: "int \<Rightarrow> string" where
  "Itoa i = (if i < 0 then ''-'' @ digits (nat (- i)) else digits (nat i))"

definition nl :: string where
  "nl = [CHR 0x0A]"

subsection \<open>hashFile (lines 167-186)\<close>

text \<open>
  What the file system answers when a path is opened and read: the open fails, or it
  succeeds and the successive calls of \<^verbatim>\<open>f.Read\<close> deliver these chunks before the first call
  that returns an error (the end of the file, as a rule). The file's content is the
  chunks one after the other.
\<close>

datatype fsfile = OpenFails | Opens "string list"

fun content :: "fsfile \<Rightarrow> string" where
  "content OpenFails = []"
| "content (Opens chunks) = concat chunks"

text \<open>
  \<^verbatim>\<open>crypto/sha1\<close> is not part of the repository: the digest function is a parameter, and a
  digest is a value of 160 bits (\<^verbatim>\<open>sha1.Size\<close> is 20 bytes). The hash object is the sequence
  of bytes written to it so far; \<^verbatim>\<open>h.Sum(nil)\<close> is the digest of that sequence.
\<close>

type_synonym sha1 = "string \<Rightarrow> 160 word"

text \<open>The loop of lines 176-184: \<^verbatim>\<open>if n > 0 { h.Write(buf[:n]) }\<close> for every chunk.\<close>

fun readLoop :: "string list \<Rightarrow> string \<Rightarrow> string" where
  "readLoop [] h = h"
| "readLoop (chunk # chunks) h = readLoop chunks (if 0 < length chunk then h @ chunk else h)"

text \<open>The verb \<^verbatim>\<open>%x\<close> on a byte slice: two lower-case hexadecimal digits for each byte.\<close>

definition hexDigit :: "nat \<Rightarrow> char" where
  "hexDigit n = ''0123456789abcdef'' ! (n mod 16)"

definition digestBytes :: "160 word \<Rightarrow> nat list" where
  "digestBytes w = map (\<lambda>i. unat (drop_bit (8 * (19 - i)) w) mod 256) [0..<20]"

definition hexString :: "nat list \<Rightarrow> string" where
  "hexString bs = concat (map (\<lambda>b. [hexDigit (b div 16), hexDigit b]) bs)"

text \<open>\<^verbatim>\<open>filepath.Base\<close> where the separator is the slash.\<close>

definition Base :: "string \<Rightarrow> string" where
  "Base p =
     (if p = [] then ''.''
      else let q = rev (dropWhile (\<lambda>c. c = CHR ''/'') (rev p));
               b = rev (takeWhile (\<lambda>c. c \<noteq> CHR ''/'') (rev q))
           in if b = [] then ''/'' else b)"

definition hashFile :: "sha1 \<Rightarrow> path \<Rightarrow> fsfile \<Rightarrow> digest" where
  "hashFile sha1sum p f =
     (case f of
        OpenFails \<Rightarrow> ''unreadable-'' @ Base p
      | Opens chunks \<Rightarrow> hexString (digestBytes (sha1sum (readLoop chunks []))))"

subsection \<open>isUnderGitnot and getAllTextFiles (lines 188-219)\<close>

definition gitnotDir :: string where
  "gitnotDir = ''.gitnot''"

definition Separator :: char where
  "Separator = CHR ''/''"

text \<open>\<^verbatim>\<open>filepath.ToSlash\<close>: the identity where the separator is the slash.\<close>

definition ToSlash :: "path \<Rightarrow> path" where
  "ToSlash p =
     (if Separator = CHR ''/'' then p
      else map (\<lambda>c. if c = Separator then CHR ''/'' else c) p)"

definition isUnderGitnot :: "path \<Rightarrow> bool" where
  "isUnderGitnot p = HasPrefix (ToSlash p) gitnotDir"

text \<open>
  A directory entry as \<^verbatim>\<open>filepath.WalkDir\<close> meets it: a file with its name, or a directory with
  its name and its entries in the order \<^verbatim>\<open>os.ReadDir\<close> lists them. A directory that cannot be
  read has no entries: the callback answers the error with \<^verbatim>\<open>nil\<close> (line 197) and the walk
  goes on.
\<close>

datatype node = File string | Dir string "node list"

fun nodeName :: "node \<Rightarrow> string" where
  "nodeName (File name) = name"
| "nodeName (Dir name entries) = name"

text \<open>
  \<^verbatim>\<open>filepath.Join(path, d.Name())\<close> as the walk calls it, on the root \<^verbatim>\<open>.\<close> or a clean relative
  path and the name of an entry.
\<close>

definition Join :: "path \<Rightarrow> string \<Rightarrow> path" where
  "Join p name = (if p = ''.'' then name else p @ [Separator] @ name)"

text \<open>
  The callback of lines 195-213 under \<^verbatim>\<open>walkDir\<close> of the library. \<open>keep name p\<close> stands for
  the two tests on the configuration, \<^verbatim>\<open>hasAnySuffix(d.Name(), cfg.Extensions)\<close> and
  \<^verbatim>\<open>!shouldIgnore(p, cfg.IgnorePatterns)\<close>. A directory for which the callback returns
  \<^verbatim>\<open>filepath.SkipDir\<close> is not read.
\<close>

fun walkDir :: "(string \<Rightarrow> path \<Rightarrow> bool) \<Rightarrow> path \<Rightarrow> node \<Rightarrow> path list" where
  "walkDir keep p (File name) = (if keep name p then [p] else [])"
| "walkDir keep p (Dir name entries) =
     (if isUnderGitnot p then []
      else concat (map (\<lambda>e. walkDir keep (Join p (nodeName e)) e) entries))"

text \<open>\<^verbatim>\<open>getAllTextFiles(".")\<close> on a working directory with these entries.\<close>

definition getAllTextFiles :: "(string \<Rightarrow> path \<Rightarrow> bool) \<Rightarrow> node list \<Rightarrow> path list" where
  "getAllTextFiles keep entries = sort (walkDir keep ''.'' (Dir ''.'' entries))"

subsection \<open>formatDiffAsMarkdown (lines 237-315)\<close>

type_synonym goint = "64 word"

record scan =
  oldLn :: goint
  newLn :: goint
  added :: "string list"
  removed :: "string list"

text \<open>Lines 251-264: the two counters after a line that starts with \<^verbatim>\<open>@@\<close>.\<close>

definition hunkStart :: "string \<Rightarrow> string \<Rightarrow> goint \<Rightarrow> goint" where
  "hunkStart part sign cur =
     (case Split (CHR '','') part of
        [] \<Rightarrow> cur
      | p # _ \<Rightarrow> (case Atoi (TrimPrefix p sign) of None \<Rightarrow> cur | Some num \<Rightarrow> word_of_int num))"

definition hunkHeader :: "string \<Rightarrow> scan \<Rightarrow> scan" where
  "hunkHeader line st =
     (let parts = Fields line
      in if 3 \<le> length parts
         then st\<lparr>oldLn := hunkStart (parts ! 1) ''-'' (oldLn st),
                 newLn := hunkStart (parts ! 2) ''+'' (newLn st)\<rparr>
         else st)"

text \<open>Line 281 and line 284: \<^verbatim>\<open>fmt.Sprintf("L%d: %s", oldLn, strings.TrimSpace(line[1:]))\<close>.\<close>

definition entry :: "goint \<Rightarrow> string \<Rightarrow> string" where
  "entry n line = ''L'' @ Itoa (sint n) @ '': '' @ TrimSpace (tl line)"

text \<open>Lines 280-292: a line that is neither a hunk header nor the first of a skipped pair.\<close>

definition oneLine :: "string \<Rightarrow> scan \<Rightarrow> scan" where
  "oneLine line st =
     (if HasPrefix line ''-'' \<and> \<not> HasPrefix line ''---''
      then st\<lparr>removed := removed st @ [entry (oldLn st) line], oldLn := oldLn st + 1\<rparr>
      else if HasPrefix line ''+'' \<and> \<not> HasPrefix line ''+++''
      then st\<lparr>added := added st @ [entry (newLn st) line], newLn := newLn st + 1\<rparr>
      else if \<not> HasPrefix line [CHR 0x5C]
      then st\<lparr>oldLn := oldLn st + 1, newLn := newLn st + 1\<rparr>
      else st)"

text \<open>Lines 270-272: the look-ahead test on a line and the line after it.\<close>

definition samePair :: "string \<Rightarrow> string \<Rightarrow> bool" where
  "samePair line next \<longleftrightarrow>
     HasPrefix line ''-'' \<and> HasPrefix next ''+'' \<and> TrimSpace (tl line) = TrimSpace (tl next)"

text \<open>The loop of lines 247-294, on the lines from index \<^verbatim>\<open>i\<close> on.\<close>

fun walk :: "string list \<Rightarrow> scan \<Rightarrow> scan" where
  "walk [] st = st"
| "walk [line] st =
     (if HasPrefix line ''@@'' then hunkHeader line st else oneLine line st)"
| "walk (line # next # rest) st =
     (if HasPrefix line ''@@'' then walk (next # rest) (hunkHeader line st)
      else if samePair line next
      then walk rest (st\<lparr>oldLn := oldLn st + 1, newLn := newLn st + 1\<rparr>)
      else walk (next # rest) (oneLine line st))"

definition noReadableDiff :: string where
  "noReadableDiff = [CHR 0xF0, CHR 0x9F, CHR 0x93, CHR 0x84] @ '' File changed (no readable diff)'' @ nl"

definition addedHeading :: string where
  "addedHeading = ''### '' @ [CHR 0xE2, CHR 0x9E, CHR 0x95] @ '' Added'' @ nl"

definition removedHeading :: string where
  "removedHeading = ''### '' @ [CHR 0xE2, CHR 0x9E, CHR 0x96] @ '' Removed'' @ nl"

text \<open>Lines 297-304 and 305-312: one heading, the entries one per line, an empty line.\<close>

definition group :: "string \<Rightarrow> string list \<Rightarrow> string" where
  "group heading ls = (if ls = [] then [] else heading @ concat (map (\<lambda>l. l @ nl) ls) @ nl)"

definition formatDiffAsMarkdown :: "string \<Rightarrow> string" where
  "formatDiffAsMarkdown diffText =
     (if diffText = [] then noReadableDiff
      else let st = walk (Split (CHR 0x0A) diffText)
                      \<lparr>oldLn = 0, newLn = 0, added = [], removed = []\<rparr>
           in group addedHeading (added st) @ group removedHeading (removed st))"

subsection \<open>The type float64 and the rounding of line 108\<close>

text \<open>
  A version is a \<^verbatim>\<open>float64\<close>. A finite value of that type is the rational number it denotes,
  and every arithmetic operation returns the exact result rounded to the nearest number
  with a significand of 53 bits, ties to even (\<open>fl\<close>). The range of the exponent is not part
  of the model: it agrees with the machine on every value between the smallest normal number
  and the largest finite one, and infinities and NaN do not arise from such values here.
\<close>

type_synonym float64 = rat

text \<open>The nearest integer, ties to the even one.\<close>

definition roundEven :: "rat \<Rightarrow> int" where
  "roundEven y =
     (let f = \<lfloor>y\<rfloor>; r = y - of_int f
      in if r < 1 / 2 then f else if 1 / 2 < r then f + 1 else if even f then f else f + 1)"

text \<open>For \<open>x \<noteq> 0\<close>, the \<open>e\<close> with \<open>2 ^ e \<le> \<bar>x\<bar> < 2 ^ (e + 1)\<close>, found from the bit lengths of numerator and denominator.\<close>

definition exponent :: "rat \<Rightarrow> int" where
  "exponent x =
     (let e = bitlen (fst (quotient_of \<bar>x\<bar>)) - bitlen (snd (quotient_of \<bar>x\<bar>))
      in if power_int 2 e \<le> \<bar>x\<bar> then e else e - 1)"

definition fl :: "rat \<Rightarrow> float64" where
  "fl x = (if x = 0 then 0
           else let u = power_int 2 (exponent x - 52) in of_int (roundEven (x / u)) * u)"

text \<open>
  The conversion \<^verbatim>\<open>int(x)\<close> of a float: the fraction is dropped (towards zero). Go leaves the
  result open when the value does not fit \<^verbatim>\<open>int\<close>; the statements below stay far inside the
  range.
\<close>

definition goInt :: "rat \<Rightarrow> int" where
  "goInt x = (if 0 \<le> x then \<lfloor>x\<rfloor> else \<lceil>x\<rceil>)"

text \<open>
  Line 108, \<^verbatim>\<open>v = float64(int((v+0.1)*10+0.5)) / 10.0\<close>. The constant \<^verbatim>\<open>0.1\<close> is the \<^verbatim>\<open>float64\<close>
  nearest to one tenth; \<^verbatim>\<open>10\<close> and \<^verbatim>\<open>0.5\<close> are exact. Go lets a compiler fuse the
  multiplication and the addition that follows into one operation with one rounding;
  \<open>fu\<close> says whether this one does.
\<close>

definition round1 :: "bool \<Rightarrow> float64 \<Rightarrow> float64" where
  "round1 fu v =
     (let s = fl (v + fl (1 / 10));
          t = (if fu then fl (s * 10 + 1 / 2) else fl (fl (s * 10) + 1 / 2))
      in fl (fl (of_int (goInt t)) / 10))"

text \<open>
  The verb \<^verbatim>\<open>%.1f\<close> prints the decimal with one fractional digit nearest to the exact value
  of its argument, ties to even: \<open>tenths v\<close> is that decimal, counted in tenths.
\<close>

definition tenths :: "float64 \<Rightarrow> int" where
  "tenths v = roundEven (10 * v)"

subsection \<open>The state directory and the environment of a run\<close>

text \<open>
  The content of \<^verbatim>\<open>version.txt\<close>: no file, text that \<^verbatim>\<open>strconv.ParseFloat\<close> rejects, or text
  that denotes a finite number.
\<close>

datatype vfile = NoFile | Garbage | Number rat

text \<open>The changes of the file system a run makes, in the order it makes them.\<close>

datatype event =
    WroteVersion
  | AppendedLog path
  | CopiedToDeleted path
  | RemovedFromSnapshot path
  | MadeTemp
  | CopiedToTemp path
  | RemovedTemp
  | RemovedSnapshot
  | RenamedTemp
  | SavedHashes
  | MadeDirs
  | SavedConfig
  | CopiedToSnapshot path

text \<open>What a run prints, one constructor for each \<^verbatim>\<open>fmt.Print\<close> of initGitnot and updateGitnot.\<close>

datatype msg =
    NoChangesDetected
  | WarnTempDir
  | WarnRemoveOld
  | WarnMoveNew
  | WarnNoUpdate
  | SnapshotFolderMissing
  | VersionBumped string
  | FilesTracked nat
  | Initialized
  | Tracking nat

text \<open>
  \<^verbatim>\<open>.gitnot\<close> as a value. \<open>hashes_json\<close> is the map the file decodes to, or \<open>None\<close> when
  \<^verbatim>\<open>loadJSON\<close> fails on it; \<open>snapshot\<close> is \<open>None\<close> when \<^verbatim>\<open>.gitnot/snapshot\<close> does not exist. The
  changelog of a path \<open>rel\<close> is the file \<^verbatim>\<open>.gitnot/changelogs/rel.log\<close>; the snapshot and the
  deleted store are keyed by \<open>rel\<close> in the same way. \<open>writes\<close> and \<open>printed\<close> record what has
  been done to the file system and the terminal so far.
\<close>

record store =
  gitnot :: bool
  config_json :: bool
  hashes_json :: "hashmap option"
  version_txt :: vfile
  changelogs :: "(path \<times> string) list"
  snapshot :: "(path \<times> string) list option"
  deleted :: "(path \<times> string) list"
  writes :: "event list"
  printed :: "msg list"

text \<open>
  What a run finds outside \<^verbatim>\<open>.gitnot\<close>: the list \<^verbatim>\<open>getAllTextFiles(".")\<close> returns, what each live
  file answers when opened, the clock, and the two libraries the repository does not
  contain: the digest and \<^verbatim>\<open>difflib\<close> (as a function of the two texts; its error is dropped at
  line 390).
\<close>

record env =
  sha :: sha1
  differ :: "string \<Rightarrow> string \<Rightarrow> string"
  now :: string
  fused :: bool
  files :: "path list"
  disk :: "path \<Rightarrow> fsfile"

text \<open>
  Which calls of the operating system fail during a run. A call that fails changes
  nothing. \<open>version_read_fails\<close> is an error of \<^verbatim>\<open>os.ReadFile\<close> other than a missing file.
\<close>

record faults =
  version_read_fails :: bool
  version_write_fails :: bool
  append_fails :: "path \<Rightarrow> bool"
  deleted_copy_fails :: "path \<Rightarrow> bool"
  remove_fails :: "path \<Rightarrow> bool"
  tempdir_fails :: bool
  temp_mkdir_fails :: "path \<Rightarrow> bool"
  temp_copy_fails :: "path \<Rightarrow> bool"
  removeall_fails :: bool
  rename_fails :: bool
  hashes_write_fails :: bool
  mkdirs_fail :: bool
  config_write_fails :: bool
  snap_mkdir_fails :: "path \<Rightarrow> bool"
  snap_copy_fails :: "path \<Rightarrow> bool"

definition did :: "event \<Rightarrow> store \<Rightarrow> store" where
  "did e s = s\<lparr>writes := writes s @ [e]\<rparr>"

definition say :: "msg \<Rightarrow> store \<Rightarrow> store" where
  "say m s = s\<lparr>printed := printed s @ [m]\<rparr>"

text \<open>Writing a file of a directory that is keyed by relative path.\<close>

definition put :: "path \<Rightarrow> string \<Rightarrow> (path \<times> string) list \<Rightarrow> (path \<times> string) list" where
  "put rel c m = (rel, c) # filter (\<lambda>kv. fst kv \<noteq> rel) m"

definition appendToFile :: "faults \<Rightarrow> path \<Rightarrow> string \<Rightarrow> store \<Rightarrow> store" where
  "appendToFile ft rel txt s =
     (if append_fails ft rel then s
      else did (AppendedLog rel)
             (s\<lparr>changelogs :=
                  put rel ((case map_of (changelogs s) rel of None \<Rightarrow> [] | Some old \<Rightarrow> old) @ txt)
                    (changelogs s)\<rparr>))"

subsection \<open>readVersion, writeVersion and bumpVersion (lines 80-113)\<close>

text \<open>Lines 80-94: a missing file and text that does not parse both read as 0.0.\<close>

definition version_of :: "store \<Rightarrow> float64" where
  "version_of s = (case version_txt s of NoFile \<Rightarrow> 0 | Garbage \<Rightarrow> 0 | Number r \<Rightarrow> fl r)"

definition readVersion :: "faults \<Rightarrow> store \<Rightarrow> float64 option" where
  "readVersion ft s =
     (if version_txt s \<noteq> NoFile \<and> version_read_fails ft then None else Some (version_of s))"

definition writeVersion :: "faults \<Rightarrow> float64 \<Rightarrow> store \<Rightarrow> store option" where
  "writeVersion ft v s =
     (if version_write_fails ft then None
      else Some (did WroteVersion (s\<lparr>gitnot := True, version_txt := Number (of_int (tenths v) / 10)\<rparr>)))"

definition bumpVersion :: "faults \<Rightarrow> bool \<Rightarrow> store \<Rightarrow> (float64 \<times> store) option" where
  "bumpVersion ft fu s =
     (case readVersion ft s of
        None \<Rightarrow> None
      | Some v \<Rightarrow>
          (case writeVersion ft (round1 fu v) s of
             None \<Rightarrow> None
           | Some s' \<Rightarrow> Some (round1 fu v, s')))"

text \<open>The verb \<^verbatim>\<open>%.1f\<close> as text.\<close>

definition fmt1 :: "float64 \<Rightarrow> string" where
  "fmt1 v =
     (if v < 0 then ''-'' else [])
     @ digits (nat (\<bar>tenths v\<bar> div 10)) @ ''.'' @ digits (nat (\<bar>tenths v\<bar> mod 10))"

subsection \<open>updateGitnot (lines 351-459)\<close>

definition keys :: "hashmap \<Rightarrow> path list" where
  "keys m = remdups (map fst m)"

text \<open>\<^verbatim>\<open>for f := range current { if _, ok := oldHashes[f]; !ok { newFiles = append(newFiles, f) } }\<close>\<close>

definition newFiles :: "hashmap \<Rightarrow> hashmap \<Rightarrow> path list" where
  "newFiles oldHashes current = filter (\<lambda>f. map_of oldHashes f = None) (keys current)"

text \<open>\<^verbatim>\<open>for f, h := range current { if oh, ok := oldHashes[f]; ok && oh != h { ... } }\<close>\<close>

definition changedFiles :: "hashmap \<Rightarrow> hashmap \<Rightarrow> path list" where
  "changedFiles oldHashes current =
     filter (\<lambda>f. case map_of oldHashes f of
                    None \<Rightarrow> False
                  | Some oh \<Rightarrow> Some oh \<noteq> map_of current f) (keys current)"

text \<open>\<^verbatim>\<open>for f := range oldHashes { if _, ok := current[f]; !ok { ... } }\<close>\<close>

definition deletedFiles :: "hashmap \<Rightarrow> hashmap \<Rightarrow> path list" where
  "deletedFiles oldHashes current = filter (\<lambda>f. map_of current f = None) (keys oldHashes)"

definition heading :: "float64 \<Rightarrow> string \<Rightarrow> string" where
  "heading ver ts = nl @ ''## v'' @ fmt1 ver @ '' '' @ [CHR 0xE2, CHR 0x80, CHR 0x93] @ '' '' @ ts @ nl"

definition newFileText :: string where
  "newFileText = [CHR 0xF0, CHR 0x9F, CHR 0x93, CHR 0x84] @ '' New file added.'' @ nl"

definition diffSkippedText :: string where
  "diffSkippedText =
     [CHR 0xF0, CHR 0x9F, CHR 0x93, CHR 0x84] @ '' File changed (encoding issues, diff skipped)'' @ nl"

definition deletedText :: string where
  "deletedText = [CHR 0xF0, CHR 0x9F, CHR 0x94, CHR 0xBB] @ '' File was deleted.'' @ nl"

text \<open>\<^verbatim>\<open>os.Stat\<close> and \<^verbatim>\<open>os.ReadFile\<close> on \<^verbatim>\<open>.gitnot/snapshot/rel\<close>.\<close>

definition snapshotFile :: "store \<Rightarrow> path \<Rightarrow> string option" where
  "snapshotFile s rel = (case snapshot s of None \<Rightarrow> None | Some m \<Rightarrow> map_of m rel)"

text \<open>Lines 376-380, the body of the loop over the new files.\<close>

definition logNew :: "faults \<Rightarrow> string \<Rightarrow> store \<Rightarrow> path \<Rightarrow> store" where
  "logNew ft h s rel = appendToFile ft rel (h @ newFileText) s"

text \<open>Lines 382-399, the body of the loop over the changed files.\<close>

definition logChanged :: "env \<Rightarrow> faults \<Rightarrow> string \<Rightarrow> store \<Rightarrow> path \<Rightarrow> store" where
  "logChanged ev ft h s rel =
     (case snapshotFile s rel of
        Some old \<Rightarrow>
          (let diffText = differ ev old (content (disk ev rel))
           in if diffText \<noteq> [] then appendToFile ft rel (h @ formatDiffAsMarkdown diffText) s
              else appendToFile ft rel (h @ noReadableDiff) s)
      | None \<Rightarrow> appendToFile ft rel (h @ diffSkippedText) s)"

text \<open>
  Lines 401-414, the body of the loop over the deleted files. The results of the copy and
  of the removal are both dropped, so the removal is tried even after a copy that failed.
\<close>

definition dropDeleted :: "faults \<Rightarrow> string \<Rightarrow> store \<Rightarrow> path \<Rightarrow> store" where
  "dropDeleted ft h s rel =
     (let s1 = appendToFile ft rel (h @ deletedText) s
      in case snapshotFile s1 rel of
           None \<Rightarrow> s1
         | Some c \<Rightarrow>
             (let s2 = (if deleted_copy_fails ft rel then s1
                        else did (CopiedToDeleted rel) (s1\<lparr>deleted := put rel c (deleted s1)\<rparr>))
              in if remove_fails ft rel then s2
                 else did (RemovedFromSnapshot rel)
                        (s2\<lparr>snapshot :=
                              map_option (filter (\<lambda>kv. fst kv \<noteq> rel)) (snapshot s2)\<rparr>)))"

text \<open>
  Lines 424-435: the copies into the temporary directory, until the first that fails. The
  result is \<^verbatim>\<open>allOk\<close>, the content of the temporary directory, and the state.
\<close>

fun copyAll ::
  "env \<Rightarrow> faults \<Rightarrow> path list \<Rightarrow> (path \<times> string) list \<Rightarrow> store
     \<Rightarrow> bool \<times> (path \<times> string) list \<times> store" where
  "copyAll ev ft [] tmp s = (True, tmp, s)"
| "copyAll ev ft (f # rest) tmp s =
     (if temp_mkdir_fails ft f then (False, tmp, s)
      else (case disk ev f of
              OpenFails \<Rightarrow> (False, tmp, s)
            | Opens chunks \<Rightarrow>
                if temp_copy_fails ft f then (False, tmp, s)
                else copyAll ev ft rest (put f (concat chunks) tmp) (did (CopiedToTemp f) s)))"

text \<open>Lines 418-448: the replacement of the snapshot when \<^verbatim>\<open>.gitnot/snapshot\<close> exists.\<close>

definition swapSnapshot :: "env \<Rightarrow> faults \<Rightarrow> store \<Rightarrow> store" where
  "swapSnapshot ev ft s =
     (if tempdir_fails ft then say WarnTempDir s
      else (case copyAll ev ft (files ev) [] (did MadeTemp s) of
              (allOk, tmp, s1) \<Rightarrow>
                if allOk
                then (if removeall_fails ft then say WarnRemoveOld s1
                      else if rename_fails ft
                      then say WarnMoveNew (did RemovedSnapshot (s1\<lparr>snapshot := None\<rparr>))
                      else did RenamedTemp (did RemovedSnapshot (s1\<lparr>snapshot := Some tmp\<rparr>)))
                else did RemovedTemp (say WarnNoUpdate s1)))"

text \<open>
  What updateGitnot returns: the two errors, and the three ways of returning \<^verbatim>\<open>nil\<close> (nothing
  changed; the snapshot directory is missing; the version was bumped and the fingerprints
  saved).
\<close>

datatype result = NotInitialized | Failed | NoChanges | SnapshotMissing | Bumped float64

definition oldHashesOf :: "store \<Rightarrow> hashmap" where
  "oldHashesOf s = (case hashes_json s of None \<Rightarrow> [] | Some m \<Rightarrow> m)"

definition currentOf :: "env \<Rightarrow> hashmap" where
  "currentOf ev = map (\<lambda>f. (f, hashFile (sha ev) f (disk ev f))) (files ev)"

definition detects :: "env \<Rightarrow> store \<Rightarrow> bool" where
  "detects ev s \<longleftrightarrow>
     length (newFiles (oldHashesOf s) (currentOf ev))
       + length (changedFiles (oldHashesOf s) (currentOf ev))
       + length (deletedFiles (oldHashesOf s) (currentOf ev)) \<noteq> 0"

text \<open>Lines 373-414: the three loops over the classified paths, after the bump.\<close>

definition logAll ::
  "env \<Rightarrow> faults \<Rightarrow> float64 \<Rightarrow> path list \<Rightarrow> path list \<Rightarrow> path list \<Rightarrow> store \<Rightarrow> store" where
  "logAll ev ft ver new changed gone s =
     (let h = heading ver (now ev);
          s2 = foldl (logNew ft h) s new;
          s3 = foldl (logChanged ev ft h) s2 changed
      in foldl (dropDeleted ft h) s3 gone)"

definition updateGitnot :: "env \<Rightarrow> faults \<Rightarrow> store \<Rightarrow> result \<times> store" where
  "updateGitnot ev ft s =
     (if \<not> gitnot s then (NotInitialized, s)
      else if \<not> detects ev s then (NoChanges, say NoChangesDetected s)
      else (case bumpVersion ft (fused ev) s of
              None \<Rightarrow> (Failed, s)
            | Some (ver, s1) \<Rightarrow>
                (let s4 = logAll ev ft ver
                            (newFiles (oldHashesOf s) (currentOf ev))
                            (changedFiles (oldHashesOf s) (currentOf ev))
                            (deletedFiles (oldHashesOf s) (currentOf ev)) s1
                 in case snapshot s4 of
                      None \<Rightarrow> (SnapshotMissing, say SnapshotFolderMissing s4)
                    | Some m \<Rightarrow>
                        (let s5 = swapSnapshot ev ft s4
                         in if hashes_write_fails ft then (Failed, s5)
                            else (Bumped ver,
                                  say (FilesTracked (length (files ev)))
                                    (say (VersionBumped (fmt1 ver))
                                      (did SavedHashes
                                        (s5\<lparr>hashes_json := Some (currentOf ev)\<rparr>))))))))"

subsection \<open>initGitnot (lines 319-349)\<close>

definition originalText :: "path \<Rightarrow> string" where
  "originalText rel = ''# '' @ rel @ '' '' @ [CHR 0xE2, CHR 0x80, CHR 0x94] @ '' original v0.0'' @ nl"

text \<open>\<^verbatim>\<open>copyFile(f, snap)\<close> of line 336 succeeds: the live file opens and the copy does not fail.\<close>

definition snapshotted :: "env \<Rightarrow> faults \<Rightarrow> path \<Rightarrow> bool" where
  "snapshotted ev ft f \<longleftrightarrow> disk ev f \<noteq> OpenFails \<and> \<not> snap_copy_fails ft f"

text \<open>
  The loop of lines 332-343. The result is whether the loop ran to its end (it returns the
  error of line 335 otherwise), the map \<^verbatim>\<open>hashes\<close>, and the state. A file whose copy fails is
  passed over by the \<^verbatim>\<open>continue\<close> of line 336.
\<close>

fun initFiles ::
  "env \<Rightarrow> faults \<Rightarrow> path list \<Rightarrow> hashmap \<Rightarrow> store \<Rightarrow> bool \<times> hashmap \<times> store" where
  "initFiles ev ft [] hashes s = (True, hashes, s)"
| "initFiles ev ft (f # rest) hashes s =
     (if snap_mkdir_fails ft f then (False, hashes, s)
      else if \<not> snapshotted ev ft f then initFiles ev ft rest hashes s
      else initFiles ev ft rest (put f (hashFile (sha ev) f (disk ev f)) hashes)
             (appendToFile ft f (originalText f)
               (did (CopiedToSnapshot f)
                 (s\<lparr>snapshot :=
                      Some (put f (content (disk ev f))
                              (case snapshot s of None \<Rightarrow> [] | Some m \<Rightarrow> m))\<rparr>))))"

text \<open>initGitnot returns \<^verbatim>\<open>nil\<close> (\<open>True\<close>) or an error (\<open>False\<close>).\<close>

definition initGitnot :: "env \<Rightarrow> faults \<Rightarrow> store \<Rightarrow> bool \<times> store" where
  "initGitnot ev ft s =
     (if mkdirs_fail ft then (False, s)
      else let s1 = did MadeDirs
                      (s\<lparr>gitnot := True,
                          snapshot := Some (case snapshot s of None \<Rightarrow> [] | Some m \<Rightarrow> m)\<rparr>)
           in if \<not> config_json s1 \<and> config_write_fails ft then (False, s1)
              else let s2 = (if config_json s1 then s1
                             else did SavedConfig (s1\<lparr>config_json := True\<rparr>))
                   in case initFiles ev ft (files ev) [] s2 of
                        (finished, hashes, s3) \<Rightarrow>
                          if \<not> finished then (False, s3)
                          else if hashes_write_fails ft then (False, s3)
                          else let s4 = did SavedHashes (s3\<lparr>hashes_json := Some hashes\<rparr>)
                               in case writeVersion ft 0 s4 of
                                    None \<Rightarrow> (False, s4)
                                  | Some s5 \<Rightarrow>
                                      (True, say (Tracking (length hashes)) (say Initialized s5)))"

subsection \<open>Notions the statements are written in\<close>

text \<open>
  The code never builds the set of unchanged paths; it is what the three loops leave out.
  The definition states it the way the specification does: present in both maps with equal
  fingerprints.
\<close>

definition unchangedFiles :: "hashmap \<Rightarrow> hashmap \<Rightarrow> path set" where
  "unchangedFiles oldHashes current =
     {f \<in> dom (map_of oldHashes) \<inter> dom (map_of current). map_of oldHashes f = map_of current f}"

definition unlines :: "string list \<Rightarrow> string" where
  "unlines ls = concat (map (\<lambda>l. l @ nl) ls)"

fun isLogEvent :: "event \<Rightarrow> bool" where
  "isLogEvent (AppendedLog rel) = True"
| "isLogEvent (CopiedToDeleted rel) = True"
| "isLogEvent (RemovedFromSnapshot rel) = True"
| "isLogEvent e = False"

fun isSwapEvent :: "event \<Rightarrow> bool" where
  "isSwapEvent MadeTemp = True"
| "isSwapEvent (CopiedToTemp f) = True"
| "isSwapEvent RemovedTemp = True"
| "isSwapEvent RemovedSnapshot = True"
| "isSwapEvent RenamedTemp = True"
| "isSwapEvent e = False"

text \<open>
  \<open>only K s s'\<close>: from \<open>s\<close> to \<open>s'\<close> the fingerprints, the version, the configuration and the
  existence of \<^verbatim>\<open>.gitnot\<close> are untouched and every change made is of kind \<open>K\<close>.
\<close>

definition only :: "(event \<Rightarrow> bool) \<Rightarrow> store \<Rightarrow> store \<Rightarrow> bool" where
  "only K s s' \<longleftrightarrow>
     hashes_json s' = hashes_json s \<and> version_txt s' = version_txt s
     \<and> gitnot s' = gitnot s \<and> config_json s' = config_json s
     \<and> take (length (writes s)) (writes s') = writes s
     \<and> list_all K (drop (length (writes s)) (writes s'))"

text \<open>A copy into the temporary directory succeeds.\<close>

definition copies :: "env \<Rightarrow> faults \<Rightarrow> path \<Rightarrow> bool" where
  "copies ev ft f \<longleftrightarrow> \<not> temp_mkdir_fails ft f \<and> disk ev f \<noteq> OpenFails \<and> \<not> temp_copy_fails ft f"

text \<open>The state after the three loops of a run whose bump gave \<open>ver\<close> and \<open>s1\<close>.\<close>

definition logged :: "env \<Rightarrow> faults \<Rightarrow> store \<Rightarrow> float64 \<Rightarrow> store \<Rightarrow> store" where
  "logged ev ft s ver s1 =
     logAll ev ft ver (newFiles (oldHashesOf s) (currentOf ev))
       (changedFiles (oldHashesOf s) (currentOf ev))
       (deletedFiles (oldHashesOf s) (currentOf ev)) s1"

text \<open>The changes a run makes, in order: those recorded in \<open>s'\<close> beyond those of \<open>s\<close>.\<close>

definition since :: "store \<Rightarrow> store \<Rightarrow> event list" where
  "since s s' = drop (length (writes s)) (writes s')"

text \<open>The calls of bumpVersion succeed: the read (when there is a file) and the write.\<close>

definition bump_ok :: "faults \<Rightarrow> store \<Rightarrow> bool" where
  "bump_ok ft s \<longleftrightarrow>
     \<not> version_write_fails ft \<and> (version_txt s = NoFile \<or> \<not> version_read_fails ft)"

text \<open>
  \<open>holds_version s n\<close>: the version read from \<open>s\<close> is \<open>n\<close> tenths. The file holds the decimal
  with one fractional digit, as every \<^verbatim>\<open>writeVersion\<close> leaves it, or it is missing or does not
  parse and the version is 0.0.
\<close>

definition holds_version :: "store \<Rightarrow> int \<Rightarrow> bool" where
  "holds_version s n \<longleftrightarrow>
     0 \<le> n \<and> (version_txt s = Number (of_int n / 10)
              \<or> n = 0 \<and> (version_txt s = NoFile \<or> version_txt s = Garbage))"

text \<open>
  The rounding as the specification words it, on exact numbers: times ten, plus one half,
  the fraction dropped, divided by ten.
\<close>

definition round1_spec :: "rat \<Rightarrow> rat" where
  "round1_spec x = of_int (goInt (x * 10 + 1 / 2)) / 10"

text \<open>A sequence of Update calls, each with its own working directory and failures.\<close>

fun runs :: "(env \<times> faults) list \<Rightarrow> store \<Rightarrow> store" where
  "runs [] s = s"
| "runs ((ev, ft) # rest) s = runs rest (snd (updateGitnot ev ft s))"

text \<open>How many of these calls detect a change and have their version read and written.\<close>

fun bumps :: "(env \<times> faults) list \<Rightarrow> store \<Rightarrow> nat" where
  "bumps [] s = 0"
| "bumps ((ev, ft) # rest) s =
     (if gitnot s \<and> detects ev s \<and> bump_ok ft s then 1 else 0)
     + bumps rest (snd (updateGitnot ev ft s))"

subsection \<open>A working directory with one file\<close>

definition no_faults :: faults where
  "no_faults =
     \<lparr>version_read_fails = False, version_write_fails = False, append_fails = (\<lambda>p. False),
      deleted_copy_fails = (\<lambda>p. False), remove_fails = (\<lambda>p. False), tempdir_fails = False,
      temp_mkdir_fails = (\<lambda>p. False), temp_copy_fails = (\<lambda>p. False), removeall_fails = False,
      rename_fails = False, hashes_write_fails = False, mkdirs_fail = False,
      config_write_fails = False, snap_mkdir_fails = (\<lambda>p. False), snap_copy_fails = (\<lambda>p. False)\<rparr>"

definition one_file :: env where
  "one_file =
     \<lparr>sha = (\<lambda>bytes. 0), differ = (\<lambda>old new. []), now = ''2024-01-01 10:00'', fused = False,
      files = [''a.txt''], disk = (\<lambda>p. if p = ''a.txt'' then Opens [''x''] else OpenFails)\<rparr>"

definition initialized :: store where
  "initialized =
     \<lparr>gitnot = True, config_json = True, hashes_json = Some [], version_txt = Number 0,
      changelogs = [], snapshot = Some [], deleted = [], writes = [], printed = []\<rparr>"

text \<open>The state after the first Update of the one-file directory, when nothing fails.\<close>

definition checkpointed :: store where
  "checkpointed =
     \<lparr>gitnot = True, config_json = True,
      hashes_json = Some [(''a.txt'', ''0000000000000000000000000000000000000000'')],
      version_txt = Number (1 / 10),
      changelogs = [(''a.txt'', heading (fl (1 / 10)) ''2024-01-01 10:00'' @ newFileText)],
      snapshot = Some [(''a.txt'', ''x'')],
      deleted = [],
      writes = [WroteVersion, AppendedLog ''a.txt'', MadeTemp, CopiedToTemp ''a.txt'',
                RemovedSnapshot, RenamedTemp, SavedHashes],
      printed = [VersionBumped ''0.1'', FilesTracked 1]\<rparr>"

definition missing_snapshot :: store where
  "missing_snapshot = initialized\<lparr>snapshot := None\<rparr>"

definition uninitialized :: store where
  "uninitialized =
     \<lparr>gitnot = False, config_json = False, hashes_json = None, version_txt = NoFile,
      changelogs = [], snapshot = None, deleted = [], writes = [], printed = []\<rparr>"

section \<open>Properties\<close>

subsection \<open>Change detection\<close>

lemma set_keys: "set (keys m) = dom (map_of m)"
  by (simp add: keys_def dom_map_of_conv_image_fst)

lemma distinct_keys: "distinct (keys m)"
  by (simp add: keys_def)

lemma set_newFiles:
  "set (newFiles oldHashes current) = dom (map_of current) - dom (map_of oldHashes)"
  by (auto simp: newFiles_def set_keys)

lemma set_changedFiles:
  "set (changedFiles oldHashes current) =
     {f \<in> dom (map_of oldHashes) \<inter> dom (map_of current). map_of oldHashes f \<noteq> map_of current f}"
  by (auto simp: changedFiles_def set_keys split: option.splits)

lemma set_deletedFiles:
  "set (deletedFiles oldHashes current) = dom (map_of oldHashes) - dom (map_of current)"
  by (auto simp: deletedFiles_def set_keys)

text \<open>
  C3. For every prior and every current fingerprint map the three computed lists and the
  unchanged set are what the specification says they are (new: only now; changed: in both
  with differing fingerprints; deleted: only before; unchanged: in both with equal
  fingerprints), they are pairwise disjoint, no list repeats a path, and together they
  cover exactly the union of the two key sets.
\<close>

theorem classification_partition:
  "set (newFiles oldHashes current) = {f. f \<in> dom (map_of current) \<and> f \<notin> dom (map_of oldHashes)}
   \<and> set (changedFiles oldHashes current) =
        {f. f \<in> dom (map_of current) \<and> f \<in> dom (map_of oldHashes)
            \<and> map_of oldHashes f \<noteq> map_of current f}
   \<and> set (deletedFiles oldHashes current) = {f. f \<in> dom (map_of oldHashes) \<and> f \<notin> dom (map_of current)}
   \<and> unchangedFiles oldHashes current =
        {f. f \<in> dom (map_of current) \<and> f \<in> dom (map_of oldHashes)
            \<and> map_of oldHashes f = map_of current f}
   \<and> set (newFiles oldHashes current) \<inter> set (changedFiles oldHashes current) = {}
   \<and> set (newFiles oldHashes current) \<inter> set (deletedFiles oldHashes current) = {}
   \<and> set (newFiles oldHashes current) \<inter> unchangedFiles oldHashes current = {}
   \<and> set (changedFiles oldHashes current) \<inter> set (deletedFiles oldHashes current) = {}
   \<and> set (changedFiles oldHashes current) \<inter> unchangedFiles oldHashes current = {}
   \<and> set (deletedFiles oldHashes current) \<inter> unchangedFiles oldHashes current = {}
   \<and> set (newFiles oldHashes current) \<union> set (changedFiles oldHashes current)
        \<union> set (deletedFiles oldHashes current) \<union> unchangedFiles oldHashes current
      = dom (map_of oldHashes) \<union> dom (map_of current)
   \<and> distinct (newFiles oldHashes current)
   \<and> distinct (changedFiles oldHashes current)
   \<and> distinct (deletedFiles oldHashes current)"
proof -
  have d: "distinct (newFiles oldHashes current)" "distinct (changedFiles oldHashes current)"
    "distinct (deletedFiles oldHashes current)"
    by (simp_all add: newFiles_def changedFiles_def deletedFiles_def distinct_keys)
  show ?thesis
    unfolding set_newFiles set_changedFiles set_deletedFiles unchangedFiles_def
    using d by auto
qed

subsection \<open>The renderer\<close>

lemmas render_eval =
  formatDiffAsMarkdown_def unlines_def nl_def HasPrefix_def samePair_def oneLine_def
  hunkHeader_def hunkStart_def Fields_def runeLen_def spaceRunes_def TrimSpace_def
  TrimPrefix_def Atoi_def Itoa_def entry_def group_def isDigit_def digitVal_def digits.simps

text \<open>
  The renderer on an ordinary replacement: the file's only line \<^verbatim>\<open>x\<close> becomes \<^verbatim>\<open>y\<close>. Both
  sections come out, each entry under the line number of its own side.
\<close>

lemma render_replaced_line:
  "formatDiffAsMarkdown
     (unlines [''--- before'', ''+++ after'', ''@@ -1,2 +1,2 @@'', ''-x'', ''+y'', '' ''])
   = addedHeading @ ''L1: y'' @ nl @ nl @ removedHeading @ ''L1: x'' @ nl @ nl"
  by (simp add: render_eval)

text \<open>
  C6. The renderer is to list every removed line under Removed with its old line number and
  every added line under Added with its new line number. The test of line 280 takes a
  removed line whose text begins with two dashes for the \<^verbatim>\<open>---\<close> file header: in the diff of
  a file whose line \<^verbatim>\<open>-- hello\<close> is replaced by \<^verbatim>\<open>x\<close>, the removed line reaches the branch
  for context lines, nothing is listed for it, both counters advance, and the added line is
  listed as line 2 instead of line 1.
\<close>

theorem render_loses_removed_line:
  "formatDiffAsMarkdown
     (unlines [''--- before'', ''+++ after'', ''@@ -1,2 +1,2 @@'', ''--- hello'', ''+x'', '' ''])
   = addedHeading @ ''L2: x'' @ nl @ nl"
  by (simp add: render_eval)

subsection \<open>Fingerprints\<close>

lemma readLoop_concat: "readLoop chunks h = h @ concat chunks"
  by (induction chunks arbitrary: h) auto

lemma length_hexString: "length (hexString bs) = 2 * length bs"
  by (induction bs) (auto simp: hexString_def)

lemma hexDigit_in: "hexDigit n \<in> set ''0123456789abcdef''"
proof -
  have "n mod 16 < length ''0123456789abcdef''" by simp
  then show ?thesis unfolding hexDigit_def by (rule nth_mem)
qed

lemma set_hexString: "set (hexString bs) \<subseteq> set ''0123456789abcdef''"
  unfolding hexString_def using hexDigit_in by auto

lemma hashFile_readable:
  "hashFile sha1sum p (Opens chunks) = hexString (digestBytes (sha1sum (concat chunks)))"
  by (simp add: hashFile_def readLoop_concat)

text \<open>
  C7. The fingerprint is a function of what the file system answers, so it is the same on
  every run. A file that opens gets the 40 hexadecimal digits of the digest of its content,
  whatever its path and however the reads cut the content; two files with the same bytes
  get the same fingerprint. A file that does not open gets \<^verbatim>\<open>unreadable-\<close> followed by its base
  name, never a failure; two such fingerprints are equal exactly when the base names are, and
  none is equal to the fingerprint of a file that opens.
\<close>

theorem hashFile_deterministic:
  "hashFile sha1sum p (Opens chunks) = hexString (digestBytes (sha1sum (content (Opens chunks))))
   \<and> length (hashFile sha1sum p (Opens chunks)) = 40
   \<and> set (hashFile sha1sum p (Opens chunks)) \<subseteq> set ''0123456789abcdef''
   \<and> (content (Opens chunks) = content (Opens chunks')
        \<longrightarrow> hashFile sha1sum p (Opens chunks) = hashFile sha1sum p' (Opens chunks'))
   \<and> hashFile sha1sum p OpenFails = ''unreadable-'' @ Base p
   \<and> (hashFile sha1sum p OpenFails = hashFile sha1sum p' OpenFails \<longleftrightarrow> Base p = Base p')
   \<and> hashFile sha1sum p OpenFails \<noteq> hashFile sha1sum p' (Opens chunks)"
proof -
  have len: "length (hashFile sha1sum p (Opens chunks)) = 40"
    by (simp add: hashFile_readable length_hexString digestBytes_def)
  have hex: "set (hashFile sha1sum p (Opens chunks)) \<subseteq> set ''0123456789abcdef''"
    unfolding hashFile_readable by (rule set_hexString)
  have "CHR ''u'' \<in> set (hashFile sha1sum p OpenFails)"
    by (simp add: hashFile_def)
  moreover have "CHR ''u'' \<notin> set (hashFile sha1sum p' (Opens chunks))"
    using set_hexString [of "digestBytes (sha1sum (concat chunks))"]
    unfolding hashFile_readable by auto
  ultimately have ne: "hashFile sha1sum p OpenFails \<noteq> hashFile sha1sum p' (Opens chunks)"
    by metis
  show ?thesis
    using len hex ne by (simp add: hashFile_readable) (simp add: hashFile_def)
qed

theorem hashFile_deterministic_witness:
  "content (Opens [''ab'', ''c'']) = content (Opens [''a'', '''', ''bc''])
   \<and> hashFile (\<lambda>_. 0) ''x/a.txt'' (Opens [''ab'', ''c''])
     = hashFile (\<lambda>_. 0) ''y/b.txt'' (Opens [''a'', '''', ''bc''])
   \<and> hashFile (\<lambda>_. 0) ''x/a.txt'' OpenFails = ''unreadable-a.txt''
   \<and> hashFile (\<lambda>_. 0) ''x/a.txt'' OpenFails = hashFile (\<lambda>_. 0) ''y/a.txt'' OpenFails
   \<and> hashFile (\<lambda>_. 0) ''x/a.txt'' OpenFails \<noteq> hashFile (\<lambda>_. 0) ''x/b.txt'' OpenFails"
  using
    hashFile_deterministic [where sha1sum = "\<lambda>_. 0" and p = "''x/a.txt''"
      and chunks = "[''ab'', ''c'']" and chunks' = "[''a'', '''', ''bc'']" and p' = "''y/b.txt''"]
    hashFile_deterministic [where sha1sum = "\<lambda>_. 0" and p = "''x/a.txt''"
      and chunks = "[]" and chunks' = "[]" and p' = "''y/a.txt''"]
    hashFile_deterministic [where sha1sum = "\<lambda>_. 0" and p = "''x/a.txt''"
      and chunks = "[]" and chunks' = "[]" and p' = "''x/b.txt''"]
  by (simp add: hashFile_def Base_def)

subsection \<open>The file walk\<close>

lemma isUnderGitnot_prefix: "isUnderGitnot p \<longleftrightarrow> prefix ''.gitnot'' p"
  by (simp add: isUnderGitnot_def ToSlash_def Separator_def HasPrefix_def gitnotDir_def)

text \<open>
  C8. The test is a prefix test on the whole path: a path is under the state directory
  exactly when its bytes begin with \<^verbatim>\<open>.gitnot\<close>. A directory with such a path contributes
  nothing to the walk, whatever it holds; in particular a directory of the working
  directory whose name begins with \<^verbatim>\<open>.gitnot\<close>, such as \<^verbatim>\<open>.gitnothing\<close>, can be taken out of the
  tree without changing the list of tracked files.
\<close>

theorem gitnot_prefix_skips_subtree:
  "(isUnderGitnot p \<longleftrightarrow> prefix ''.gitnot'' (ToSlash p))
   \<and> isUnderGitnot ''.gitnothing''
   \<and> (isUnderGitnot p \<longrightarrow> walkDir keep p (Dir name sub) = [])
   \<and> (prefix ''.gitnot'' name \<longrightarrow>
        getAllTextFiles keep (before @ Dir name sub # after) = getAllTextFiles keep (before @ after))"
proof -
  have "walkDir keep name (Dir name sub) = []" if "prefix ''.gitnot'' name"
    using that by (simp add: isUnderGitnot_prefix)
  then show ?thesis
    by (simp add: getAllTextFiles_def Join_def isUnderGitnot_def gitnotDir_def HasPrefix_def
        ToSlash_def Separator_def)
qed

theorem gitnot_prefix_skips_subtree_witness:
  "isUnderGitnot ''.gitnothing/sub''
   \<and> walkDir (\<lambda>name p. True) ''.gitnothing/sub'' (Dir ''sub'' [File ''a.txt'']) = []
   \<and> prefix ''.gitnot'' ''.gitnothing''
   \<and> getAllTextFiles (\<lambda>name p. True)
        [Dir ''.gitnothing'' [File ''a.txt''], Dir ''notes'' [File ''a.txt'']]
      = [''notes/a.txt'']
   \<and> getAllTextFiles (\<lambda>name p. True) [Dir ''notes'' [File ''a.txt'']] = [''notes/a.txt'']"
  using gitnot_prefix_skips_subtree [where p = "''.gitnothing/sub''" and keep = "\<lambda>name p. True"
      and name = "''.gitnothing''" and sub = "[File ''a.txt'']" and before = "[]"
      and after = "[Dir ''notes'' [File ''a.txt'']]"]
    gitnot_prefix_skips_subtree [where p = "''.gitnothing/sub''" and keep = "\<lambda>name p. True"
      and name = "''sub''" and sub = "[File ''a.txt'']" and before = "[]" and after = "[]"]
  by (simp add: getAllTextFiles_def isUnderGitnot_prefix Join_def Separator_def)

subsection \<open>Rounding to float64\<close>

lemma roundEven_err: "\<bar>of_int (roundEven y) - y\<bar> \<le> 1 / 2"
proof -
  have "of_int \<lfloor>y\<rfloor> \<le> y" "y < of_int \<lfloor>y\<rfloor> + 1"
    by linarith+
  then show ?thesis
    unfolding roundEven_def Let_def by (auto simp: abs_le_iff)
qed

lemma roundEven_of_int [simp]: "roundEven (of_int k) = k"
  by (simp add: roundEven_def)

lemma int_bitlen_pow:
  fixes p :: int
  assumes "0 < p"
  shows "power_int (2::rat) (bitlen p - 1) \<le> of_int p" "of_int p < power_int (2::rat) (bitlen p)"
proof -
  have b: "0 < bitlen p" using assms bitlen_def bitlen_nonneg bitlen_eq_zero_iff
    by (metis less_le not_le)
  from bitlen_bounds [OF assms]
  have 1: "2 ^ nat (bitlen p - 1) \<le> p" and 2: "p < 2 ^ nat (bitlen p)" by auto
  have "(of_int (2 ^ nat (bitlen p - 1)) :: rat) \<le> of_int p" using 1 of_int_le_iff by blast
  then show "power_int (2::rat) (bitlen p - 1) \<le> of_int p"
    using b by (simp add: power_int_def)
  have "(of_int p :: rat) < of_int (2 ^ nat (bitlen p))" using 2 of_int_less_iff by blast
  then show "of_int p < power_int (2::rat) (bitlen p)"
    using b by (simp add: power_int_def)
qed

lemma exponent_bounds:
  assumes "x \<noteq> 0"
  shows "power_int 2 (exponent x) \<le> \<bar>x\<bar>" "\<bar>x\<bar> < power_int 2 (exponent x + 1)"
proof -
  obtain p q where pq: "quotient_of \<bar>x\<bar> = (p, q)" by (cases "quotient_of \<bar>x\<bar>")
  have q: "0 < q" using pq quotient_of_denom_pos by blast
  have xa: "\<bar>x\<bar> = of_int p / of_int q" using pq quotient_of_div by blast
  have "0 < \<bar>x\<bar>" using assms by simp
  then have p: "0 < p" using xa q by (simp add: zero_less_divide_iff)
  define e where "e = bitlen p - bitlen q"
  note P = int_bitlen_pow [OF p] and Q = int_bitlen_pow [OF q]
  have qpos: "(0::rat) < of_int q" using q by simp
  have lo: "power_int 2 (e - 1) < \<bar>x\<bar>"
  proof -
    have "power_int (2::rat) (e - 1) = power_int 2 (bitlen p - 1) / power_int 2 (bitlen q)"
      by (simp add: e_def power_int_diff)
    also have "\<dots> \<le> of_int p / power_int 2 (bitlen q)"
      using P(1) by (simp add: divide_right_mono)
    also have "\<dots> < of_int p / of_int q"
      using Q(2) p qpos by (simp add: divide_strict_left_mono)
    finally show ?thesis by (simp add: xa)
  qed
  have hi: "\<bar>x\<bar> < power_int 2 (e + 1)"
  proof -
    have "\<bar>x\<bar> = of_int p / of_int q" by (rule xa)
    also have "\<dots> < power_int 2 (bitlen p) / of_int q"
      using P(2) qpos by (simp add: divide_strict_right_mono)
    also have "\<dots> \<le> power_int 2 (bitlen p) / power_int 2 (bitlen q - 1)"
      using Q(1) by (intro frac_le) simp_all
    also have "\<dots> = power_int (2::rat) (e + 1)"
      by (simp add: e_def power_int_diff power_int_add)
    finally show ?thesis .
  qed
  have ex: "exponent x = (if power_int 2 e \<le> \<bar>x\<bar> then e else e - 1)"
    by (simp add: exponent_def pq e_def)
  show "power_int 2 (exponent x) \<le> \<bar>x\<bar>"
    using lo by (simp add: ex)
  show "\<bar>x\<bar> < power_int 2 (exponent x + 1)"
    using hi by (simp add: ex)
qed

lemma roundEven_near:
  assumes "\<bar>y - of_int k\<bar> < 1 / 2"
  shows "roundEven y = k"
proof -
  have "\<bar>of_int (roundEven y) - y\<bar> \<le> 1 / 2" by (rule roundEven_err)
  with assms have "\<bar>(of_int (roundEven y) :: rat) - of_int k\<bar> < 1" by linarith
  then have "\<bar>(of_int (roundEven y - k) :: rat)\<bar> < 1" by simp
  then have "\<bar>roundEven y - k\<bar> < 1"
    by (metis of_int_abs of_int_less_1_iff)
  then show ?thesis by linarith
qed

lemma fl_err:
  "\<bar>fl x - x\<bar> \<le> \<bar>x\<bar> / 2 ^ 53"
proof (cases "x = 0")
  case True
  then show ?thesis by (simp add: fl_def)
next
  case False
  define u :: rat where "u = power_int 2 (exponent x - 52)"
  have u: "0 < u" by (simp add: u_def)
  have "fl x - x = (of_int (roundEven (x / u)) - x / u) * u"
    using False u by (simp add: fl_def u_def [symmetric] Let_def algebra_simps)
  then have "\<bar>fl x - x\<bar> = \<bar>of_int (roundEven (x / u)) - x / u\<bar> * u"
    using u by (simp add: abs_mult)
  also have "\<dots> \<le> (1 / 2) * u"
    using roundEven_err [of "x / u"] u by (intro mult_right_mono) simp_all
  also have "\<dots> = power_int 2 (exponent x) / 2 ^ 53"
    by (simp add: u_def power_int_diff)
  also have "\<dots> \<le> \<bar>x\<bar> / 2 ^ 53"
    using exponent_bounds(1) [OF False] by (simp add: divide_right_mono)
  finally show ?thesis .
qed

lemma fl_abs_err:
  assumes "\<bar>x\<bar> \<le> 2 ^ 45"
  shows "\<bar>fl x - x\<bar> \<le> 1 / 256"
proof -
  have "\<bar>fl x - x\<bar> \<le> \<bar>x\<bar> / 2 ^ 53" by (rule fl_err)
  also have "\<dots> \<le> 2 ^ 45 / 2 ^ 53" using assms by (simp add: divide_right_mono)
  also have "\<dots> = (1 / 256 :: rat)" by simp
  finally show ?thesis .
qed

lemma fl_of_int:
  assumes "\<bar>k\<bar> < 2 ^ 53"
  shows "fl (of_int k) = of_int k"
proof (cases "k = 0")
  case True
  then show ?thesis by (simp add: fl_def)
next
  case False
  define x :: rat where "x = of_int k"
  have x0: "x \<noteq> 0" using False by (simp add: x_def)
  define e where "e = exponent x"
  have "power_int 2 e \<le> \<bar>x\<bar>" unfolding e_def using exponent_bounds(1) [OF x0] .
  also have "\<bar>x\<bar> < 2 ^ 53"
    using assms unfolding x_def
    by (metis of_int_abs of_int_less_iff of_int_numeral of_int_power)
  also have "(2::rat) ^ 53 = power_int 2 53" by simp
  finally have "power_int (2::rat) e < power_int 2 53" .
  have "e < 53"
  proof (rule ccontr)
    assume "\<not> e < 53"
    then have "power_int (2::rat) 53 \<le> power_int 2 e"
      by (intro power_int_increasing) auto
    with \<open>power_int (2::rat) e < power_int 2 53\<close> show False by simp
  qed
  then have e: "0 \<le> 52 - e" by simp
  define m where "m = nat (52 - e)"
  have u: "power_int (2::rat) (e - 52) = 1 / 2 ^ m"
    using e unfolding m_def
    by (smt (verit) power_int_minus power_int_def divide_inverse mult_1 nat_0_le of_nat_nat
        minus_diff_eq int_nat_eq)
  have "x / power_int 2 (e - 52) = of_int (k * 2 ^ m)"
    by (simp add: u x_def)
  then have "roundEven (x / power_int 2 (e - 52)) = k * 2 ^ m"
    by (simp only: roundEven_of_int)
  then have "fl x = of_int (k * 2 ^ m) * (1 / 2 ^ m)"
    using x0 by (simp add: fl_def e_def [symmetric] u)
  then show ?thesis by (simp add: x_def)
qed

lemma fl_near:
  assumes "lo \<le> x" "x \<le> hi" "- 35184372088832 \<le> lo" "hi \<le> 35184372088832"
  shows "lo - 1 / 256 \<le> fl x" "fl x \<le> hi + 1 / 256"
proof -
  have "\<bar>x\<bar> \<le> 2 ^ 45" using assms by (simp add: abs_le_iff)
  then have "\<bar>fl x - x\<bar> \<le> 1 / 256" by (rule fl_abs_err)
  then have "x - 1 / 256 \<le> fl x" "fl x \<le> x + 1 / 256"
    by linarith+
  with assms show "lo - 1 / 256 \<le> fl x" "fl x \<le> hi + 1 / 256" by linarith+
qed

lemma of_int_bounds:
  assumes "0 \<le> n" "n < 2 ^ 41"
  shows "(0::rat) \<le> of_int n" "(of_int n :: rat) < 2199023255552"
proof -
  show "(0::rat) \<le> of_int n" using assms by simp
  have "n < 2199023255552" using assms by simp
  then show "(of_int n :: rat) < 2199023255552"
    by (metis of_int_less_iff of_int_numeral)
qed

lemma round1_exact:
  assumes n: "0 \<le> n" "n < 2 ^ 41"
  shows "round1 fu (fl (of_int n / 10)) = fl (of_int (n + 1) / 10)"
proof -
  define N :: rat where "N = of_int n"
  have N: "0 \<le> N" "N < 2199023255552"
    unfolding N_def using of_int_bounds [OF n] by simp_all
  define v where "v = fl (N / 10)"
  define c :: rat where "c = fl (1 / 10)"
  define s where "s = fl (v + c)"
  define t where "t = (if fu then fl (s * 10 + 1 / 2) else fl (fl (s * 10) + 1 / 2))"
  have v: "N / 10 - 1 / 256 \<le> v" "v \<le> N / 10 + 1 / 256"
    unfolding v_def using fl_near [of "N / 10" "N / 10" "N / 10"] N by auto
  have c: "1 / 10 - 1 / 256 \<le> c" "c \<le> 1 / 10 + 1 / 256"
    unfolding c_def using fl_near [of "1 / 10" "1 / 10" "1 / 10"] by auto
  have s: "N / 10 + 1 / 10 - 3 / 256 \<le> s" "s \<le> N / 10 + 1 / 10 + 3 / 256"
  proof -
    have "N / 10 + 1 / 10 - 2 / 256 \<le> v + c" "v + c \<le> N / 10 + 1 / 10 + 2 / 256"
      "- 35184372088832 \<le> N / 10 + 1 / 10 - 2 / 256" "N / 10 + 1 / 10 + 2 / 256 \<le> 35184372088832"
      using v c N by linarith+
    from fl_near [OF this]
    show "N / 10 + 1 / 10 - 3 / 256 \<le> s" "s \<le> N / 10 + 1 / 10 + 3 / 256"
      unfolding s_def by linarith+
  qed
  have t: "N + 11 / 8 \<le> t \<and> t \<le> N + 13 / 8"
  proof (cases fu)
    case True
    have "N + 3 / 2 - 30 / 256 \<le> s * 10 + 1 / 2" "s * 10 + 1 / 2 \<le> N + 3 / 2 + 30 / 256"
      "- 35184372088832 \<le> N + 3 / 2 - 30 / 256" "N + 3 / 2 + 30 / 256 \<le> 35184372088832"
      using s N by linarith+
    from fl_near [OF this] True
    show "N + 11 / 8 \<le> t \<and> t \<le> N + 13 / 8"
      unfolding t_def by simp
  next
    case False
    have "N + 1 - 30 / 256 \<le> s * 10" "s * 10 \<le> N + 1 + 30 / 256"
      "- 35184372088832 \<le> N + 1 - 30 / 256" "N + 1 + 30 / 256 \<le> 35184372088832"
      using s N by linarith+
    from fl_near [OF this]
    have "N + 3 / 2 - 31 / 256 \<le> fl (s * 10) + 1 / 2" "fl (s * 10) + 1 / 2 \<le> N + 3 / 2 + 31 / 256"
      "- 35184372088832 \<le> N + 3 / 2 - 31 / 256" "N + 3 / 2 + 31 / 256 \<le> 35184372088832"
      using N by linarith+
    from fl_near [OF this] False
    show "N + 11 / 8 \<le> t \<and> t \<le> N + 13 / 8"
      unfolding t_def by simp
  qed
  have "of_int (n + 1) \<le> t" "t < of_int (n + 1) + 1" "0 \<le> t"
    using t N by (simp_all add: N_def)
  then have "goInt t = n + 1"
    unfolding goInt_def by (simp add: floor_unique)
  moreover have "fl (of_int (n + 1)) = of_int (n + 1)"
    using n by (intro fl_of_int) simp
  moreover have "round1 fu (fl (of_int n / 10)) = fl (fl (of_int (goInt t)) / 10)"
    unfolding round1_def Let_def t_def s_def c_def v_def N_def by (cases fu) simp_all
  ultimately show ?thesis
    by simp
qed

lemma tenths_fl:
  assumes "0 \<le> n" "n < 2 ^ 41"
  shows "tenths (fl (of_int n / 10)) = n"
proof -
  define N :: rat where "N = of_int n"
  have N: "0 \<le> N" "N < 2199023255552"
    unfolding N_def using of_int_bounds [OF assms] by simp_all
  have "N / 10 - 1 / 256 \<le> fl (N / 10)" "fl (N / 10) \<le> N / 10 + 1 / 256"
    using fl_near [of "N / 10" "N / 10" "N / 10"] N by auto
  then have "\<bar>10 * fl (N / 10) - N\<bar> < 1 / 2"
    by linarith
  then show ?thesis
    unfolding tenths_def N_def by (rule roundEven_near)
qed

subsection \<open>What each step of an Update writes\<close>

lemma only_refl: "only K s s"
  by (simp add: only_def)

lemma only_trans:
  assumes "only K s s'" "only K s' s''"
  shows "only K s s''"
proof -
  obtain a where a: "writes s' = writes s @ a" "list_all K a"
    using assms(1) unfolding only_def by (metis append_take_drop_id)
  obtain b where b: "writes s'' = writes s' @ b" "list_all K b"
    using assms(2) unfolding only_def by (metis append_take_drop_id)
  show ?thesis
    using assms a b by (simp add: only_def)
qed

lemma only_did: "K e \<Longrightarrow> only K s (did e s)"
  by (simp add: only_def did_def)

lemma only_say: "only K s (say m s)"
  by (simp add: only_def say_def)

lemma only_foldl:
  assumes "\<And>s x. only K s (f s x)"
  shows "only K s (foldl f s xs)"
proof (induction xs arbitrary: s)
  case Nil
  show ?case by (simp add: only_refl)
next
  case (Cons x xs)
  show ?case using only_trans [OF assms [of s x] Cons [of "f s x"]] by simp
qed

lemma only_appendToFile: "only isLogEvent s (appendToFile ft rel txt s)"
  by (simp add: appendToFile_def only_def did_def)

lemma only_logNew: "only isLogEvent s (logNew ft h s rel)"
  by (simp add: logNew_def only_appendToFile)

lemma only_logChanged: "only isLogEvent s (logChanged ev ft h s rel)"
  by (simp add: logChanged_def only_appendToFile Let_def split: option.split)

lemma only_dropDeleted: "only isLogEvent s (dropDeleted ft h s rel)"
proof -
  have "only isLogEvent s1 (dropDeleted ft h s rel)"
    if "s1 = appendToFile ft rel (h @ deletedText) s" for s1
    using that by (simp add: dropDeleted_def Let_def only_def did_def split: option.split)
  then show ?thesis
    using only_trans [OF only_appendToFile] by blast
qed

lemma only_logAll: "only isLogEvent s (logAll ev ft ver new changed gone s)"
  unfolding logAll_def Let_def
  by (intro only_trans [OF only_foldl only_trans [OF only_foldl only_foldl]]
      only_logNew only_logChanged only_dropDeleted)

lemma snapshot_appendToFile [simp]: "snapshot (appendToFile ft rel txt s) = snapshot s"
  by (simp add: appendToFile_def did_def)

lemma snapshot_None_foldl:
  assumes "\<And>s x. snapshot (f s x) = None \<longleftrightarrow> snapshot s = None"
  shows "snapshot (foldl f s xs) = None \<longleftrightarrow> snapshot s = None"
  by (induction xs arbitrary: s) (simp_all add: assms)

lemma snapshot_None_dropDeleted:
  "snapshot (dropDeleted ft h s rel) = None \<longleftrightarrow> snapshot s = None"
  by (simp add: dropDeleted_def Let_def did_def snapshotFile_def split: option.split)

lemma snapshot_None_logAll:
  "snapshot (logAll ev ft ver new changed gone s) = None \<longleftrightarrow> snapshot s = None"
proof -
  have a: "snapshot (logNew ft h s x) = None \<longleftrightarrow> snapshot s = None" for h s x
    by (simp add: logNew_def)
  have b: "snapshot (logChanged ev ft h s x) = None \<longleftrightarrow> snapshot s = None" for h s x
    by (simp add: logChanged_def Let_def split: option.split)
  show ?thesis
    unfolding logAll_def Let_def
    by (simp add: snapshot_None_foldl [of "dropDeleted ft h" for h, OF snapshot_None_dropDeleted]
        snapshot_None_foldl [of "logChanged ev ft h" for h, OF b]
        snapshot_None_foldl [of "logNew ft h" for h, OF a])
qed

lemma copyAll_ok: "fst (copyAll ev ft fs tmp s) \<longleftrightarrow> list_all (copies ev ft) fs"
  by (induction fs arbitrary: tmp s) (auto simp: copies_def split: fsfile.split)

lemma copyAll_only: "only isSwapEvent s (snd (snd (copyAll ev ft fs tmp s)))"
proof (induction fs arbitrary: tmp s)
  case Nil
  show ?case by (simp add: only_refl)
next
  case (Cons f fs)
  have "only isSwapEvent s (did (CopiedToTemp f) s)" by (simp add: only_did)
  from only_trans [OF this Cons] show ?case
    by (simp add: only_refl split: fsfile.split)
qed

lemma copyAll_frame:
  "snapshot (snd (snd (copyAll ev ft fs tmp s))) = snapshot s
   \<and> changelogs (snd (snd (copyAll ev ft fs tmp s))) = changelogs s
   \<and> deleted (snd (snd (copyAll ev ft fs tmp s))) = deleted s
   \<and> printed (snd (snd (copyAll ev ft fs tmp s))) = printed s"
  by (induction fs arbitrary: tmp s) (auto simp: did_def split: fsfile.split)

lemma map_of_put: "map_of (put k v m) k' = (if k' = k then Some v else map_of m k')"
  by (induction m) (auto simp: put_def)

lemma copyAll_content:
  assumes "list_all (copies ev ft) fs"
  shows "map_of (fst (snd (copyAll ev ft fs tmp s))) f
         = (if f \<in> set fs then Some (content (disk ev f)) else map_of tmp f)"
  using assms
proof (induction fs arbitrary: tmp s)
  case Nil
  show ?case by simp
next
  case (Cons g fs)
  then obtain chunks where g: "disk ev g = Opens chunks" "\<not> temp_mkdir_fails ft g" "\<not> temp_copy_fails ft g"
    by (cases "disk ev g") (auto simp: copies_def)
  have "list_all (copies ev ft) fs" using Cons.prems by simp
  from Cons.IH [OF this] g show ?case
    by (auto simp: map_of_put)
qed

lemma only_swapSnapshot: "only isSwapEvent s (swapSnapshot ev ft s)"
proof -
  obtain ok tmp s1 where c: "copyAll ev ft (files ev) [] (did MadeTemp s) = (ok, tmp, s1)"
    by (cases "copyAll ev ft (files ev) [] (did MadeTemp s)") auto
  have "only isSwapEvent (did MadeTemp s) s1"
    using copyAll_only [of "did MadeTemp s" ev ft "files ev" "[]"] c by simp
  then have s1: "only isSwapEvent s s1"
    using only_trans [OF only_did] by (metis isSwapEvent.simps(1))
  have x: "only isSwapEvent s1 (did e (s1\<lparr>snapshot := x\<rparr>))" if "isSwapEvent e" for e x
    using that by (simp add: only_def did_def)
  have y: "only isSwapEvent s1 (did e1 (did e2 (s1\<lparr>snapshot := x\<rparr>)))"
    if "isSwapEvent e1" "isSwapEvent e2" for e1 e2 x
    using that by (simp add: only_def did_def)
  have z: "only isSwapEvent s1 (say m (did e (s1\<lparr>snapshot := x\<rparr>)))" if "isSwapEvent e" for e x m
    using that by (simp add: only_def did_def say_def)
  have w: "only isSwapEvent s1 (did e (say m s1))" if "isSwapEvent e" for e m
    using that by (simp add: only_def did_def say_def)
  show ?thesis
    unfolding swapSnapshot_def c
    using s1 only_trans [OF s1 only_say] only_trans [OF s1 y] only_trans [OF s1 z]
      only_trans [OF s1 w]
    by (simp add: only_say)
qed

lemma only_writes:
  assumes "only K s s'"
  obtains evs where "writes s' = writes s @ evs" "list_all K evs"
  using assms unfolding only_def by (metis append_take_drop_id)

lemma bumpVersion_Some:
  assumes "bumpVersion ft fu s = Some (ver, s1)"
  shows "ver = round1 fu (version_of s)"
    and "s1 = did WroteVersion (s\<lparr>gitnot := True, version_txt := Number (of_int (tenths ver) / 10)\<rparr>)"
    and "\<not> version_write_fails ft" and "version_txt s = NoFile \<or> \<not> version_read_fails ft"
  using assms
  by (auto simp: bumpVersion_def readVersion_def writeVersion_def split: option.splits if_splits)

lemma bumpVersion_None:
  "bumpVersion ft fu s = None \<longleftrightarrow>
     version_write_fails ft \<or> (version_txt s \<noteq> NoFile \<and> version_read_fails ft)"
  by (auto simp: bumpVersion_def readVersion_def writeVersion_def split: option.splits if_splits)

lemma update_not_initialized: "\<not> gitnot s \<Longrightarrow> updateGitnot ev ft s = (NotInitialized, s)"
  by (simp add: updateGitnot_def)

lemma update_no_changes:
  "gitnot s \<Longrightarrow> \<not> detects ev s \<Longrightarrow> updateGitnot ev ft s = (NoChanges, say NoChangesDetected s)"
  by (simp add: updateGitnot_def)

lemma update_bump_fails:
  "gitnot s \<Longrightarrow> detects ev s \<Longrightarrow> bumpVersion ft (fused ev) s = None
     \<Longrightarrow> updateGitnot ev ft s = (Failed, s)"
  by (simp add: updateGitnot_def)

lemma update_after_bump:
  assumes "gitnot s" "detects ev s" "bumpVersion ft (fused ev) s = Some (ver, s1)"
  shows "updateGitnot ev ft s =
     (if snapshot s = None then (SnapshotMissing, say SnapshotFolderMissing (logged ev ft s ver s1))
      else if hashes_write_fails ft then (Failed, swapSnapshot ev ft (logged ev ft s ver s1))
      else (Bumped ver,
            say (FilesTracked (length (files ev)))
              (say (VersionBumped (fmt1 ver))
                (did SavedHashes
                  ((swapSnapshot ev ft (logged ev ft s ver s1))\<lparr>hashes_json := Some (currentOf ev)\<rparr>)))))"
proof -
  have "snapshot s1 = snapshot s"
    using bumpVersion_Some(2) [OF assms(3)] by (simp add: did_def)
  then have "snapshot (logged ev ft s ver s1) = None \<longleftrightarrow> snapshot s = None"
    by (simp add: logged_def snapshot_None_logAll)
  then show ?thesis
    using assms by (auto simp: updateGitnot_def logged_def Let_def split: option.split)
qed

lemma since_append: "writes s' = writes s @ evs \<Longrightarrow> since s s' = evs"
  by (simp add: since_def)

lemma update_writes:
  assumes "gitnot s" "detects ev s" "bumpVersion ft (fused ev) s = Some (ver, s1)"
    and "updateGitnot ev ft s = (r, s')"
  shows "\<exists>logs swaps.
           list_all isLogEvent logs \<and> list_all isSwapEvent swaps
           \<and> since s s' = WroteVersion # logs @ swaps @ (if r = Bumped ver then [SavedHashes] else [])
           \<and> (snapshot s = None \<longrightarrow> swaps = [])
           \<and> version_txt s' = Number (of_int (tenths ver) / 10)
           \<and> hashes_json s' = (if r = Bumped ver then Some (currentOf ev) else hashes_json s)
           \<and> gitnot s'
           \<and> (r = Bumped ver \<longleftrightarrow> snapshot s \<noteq> None \<and> \<not> hashes_write_fails ft)
           \<and> (r = SnapshotMissing \<longleftrightarrow> snapshot s = None)
           \<and> (r = Failed \<longleftrightarrow> snapshot s \<noteq> None \<and> hashes_write_fails ft)"
proof -
  define s4 where "s4 = logged ev ft s ver s1"
  define s5 where "s5 = swapSnapshot ev ft s4"
  note b = bumpVersion_Some [OF assms(3)]
  have w1: "writes s1 = writes s @ [WroteVersion]" "hashes_json s1 = hashes_json s"
    "version_txt s1 = Number (of_int (tenths ver) / 10)" "gitnot s1"
    using b(2) by (simp_all add: did_def)
  have o4: "only isLogEvent s1 s4"
    unfolding s4_def logged_def by (rule only_logAll)
  then obtain logs where logs: "writes s4 = writes s1 @ logs" "list_all isLogEvent logs"
    by (rule only_writes)
  have o5: "only isSwapEvent s4 s5"
    unfolding s5_def by (rule only_swapSnapshot)
  then obtain swaps where swaps: "writes s5 = writes s4 @ swaps" "list_all isSwapEvent swaps"
    by (rule only_writes)
  have f4: "hashes_json s4 = hashes_json s" "version_txt s4 = version_txt s1" "gitnot s4"
    using o4 w1 by (simp_all add: only_def)
  have f5: "hashes_json s5 = hashes_json s" "version_txt s5 = version_txt s1" "gitnot s5"
    using o5 f4 by (simp_all add: only_def)
  note u = update_after_bump [OF assms(1,2,3), folded s4_def, folded s5_def]
  show ?thesis
  proof (cases "snapshot s = None")
    case True
    then have "r = SnapshotMissing" "s' = say SnapshotFolderMissing s4"
      using u assms(4) by simp_all
    then show ?thesis
      using True logs w1 f4
      by - (rule exI [of _ logs], rule exI [of _ "[]"], simp add: since_def say_def)
  next
    case False
    show ?thesis
    proof (cases "hashes_write_fails ft")
      case True
      then have "r = Failed" "s' = s5"
        using u assms(4) False by simp_all
      then show ?thesis
        using True False logs swaps w1 f5
        by - (rule exI [of _ logs], rule exI [of _ swaps], auto simp add: since_def)
    next
      case nf: False
      then have "r = Bumped ver"
        "s' = say (FilesTracked (length (files ev))) (say (VersionBumped (fmt1 ver))
                (did SavedHashes (s5\<lparr>hashes_json := Some (currentOf ev)\<rparr>)))"
        using u assms(4) False by simp_all
      then show ?thesis
        using nf False logs swaps w1 f5
        by - (rule exI [of _ logs], rule exI [of _ swaps], auto simp add: since_def say_def did_def)
    qed
  qed
qed

lemma classify_same:
  "newFiles m m = [] \<and> changedFiles m m = [] \<and> deletedFiles m m = []"
proof -
  have "set (newFiles m m) = {}" "set (changedFiles m m) = {}" "set (deletedFiles m m) = {}"
    by (simp_all add: set_newFiles set_changedFiles set_deletedFiles)
  then show ?thesis by simp
qed

lemma not_detects_saved: "hashes_json s = Some (currentOf ev) \<Longrightarrow> \<not> detects ev s"
  by (simp add: detects_def oldHashesOf_def classify_same)

lemma detects_cong:
  "hashes_json s' = hashes_json s \<Longrightarrow> detects ev s' = detects ev s"
  by (simp add: detects_def oldHashesOf_def)

subsection \<open>The replacement of the snapshot\<close>

lemma swapSnapshot_cases:
  "swapSnapshot ev ft s =
     (let c = copyAll ev ft (files ev) [] (did MadeTemp s)
      in if tempdir_fails ft then say WarnTempDir s
         else if \<not> list_all (copies ev ft) (files ev) then did RemovedTemp (say WarnNoUpdate (snd (snd c)))
         else if removeall_fails ft then say WarnRemoveOld (snd (snd c))
         else if rename_fails ft
         then say WarnMoveNew (did RemovedSnapshot ((snd (snd c))\<lparr>snapshot := None\<rparr>))
         else did RenamedTemp (did RemovedSnapshot ((snd (snd c))\<lparr>snapshot := Some (fst (snd c))\<rparr>)))"
  using copyAll_ok [of ev ft "files ev" "[]" "did MadeTemp s"]
  by (cases "copyAll ev ft (files ev) [] (did MadeTemp s)") (auto simp: swapSnapshot_def Let_def)

lemma swapSnapshot_snapshot:
  "snapshot (swapSnapshot ev ft s) =
     (if tempdir_fails ft \<or> \<not> list_all (copies ev ft) (files ev) \<or> removeall_fails ft
      then snapshot s
      else if rename_fails ft then None
      else Some (fst (snd (copyAll ev ft (files ev) [] (did MadeTemp s)))))"
  using copyAll_frame [of ev ft "files ev" "[]" "did MadeTemp s"]
  by (simp add: swapSnapshot_cases Let_def say_def did_def)

lemma swapSnapshot_printed:
  "printed (swapSnapshot ev ft s) =
     printed s @
     (if tempdir_fails ft then [WarnTempDir]
      else if \<not> list_all (copies ev ft) (files ev) then [WarnNoUpdate]
      else if removeall_fails ft then [WarnRemoveOld]
      else if rename_fails ft then [WarnMoveNew]
      else [])"
  using copyAll_frame [of ev ft "files ev" "[]" "did MadeTemp s"]
  by (simp add: swapSnapshot_cases Let_def say_def did_def)

text \<open>
  C4. The replacement of the snapshot (lines 418-448). The mirror changes only when the
  temporary directory was made, every file of the list was copied into it and the old
  mirror was removed. When a copy fails the mirror is what it was and the warning of line
  445 is printed. When the old mirror is removed and the rename fails, there is no snapshot
  left and the warning of line 442 is printed. When nothing fails, the mirror holds exactly
  the listed files with their live content and nothing is printed.
\<close>

theorem snapshot_rebuild_fail_closed:
  "(snapshot (swapSnapshot ev ft s) \<noteq> snapshot s \<longrightarrow>
      \<not> tempdir_fails ft \<and> list_all (copies ev ft) (files ev) \<and> \<not> removeall_fails ft)
   \<and> (\<not> list_all (copies ev ft) (files ev) \<longrightarrow>
        snapshot (swapSnapshot ev ft s) = snapshot s
        \<and> printed (swapSnapshot ev ft s)
            = printed s @ [if tempdir_fails ft then WarnTempDir else WarnNoUpdate])
   \<and> (\<not> tempdir_fails ft \<and> list_all (copies ev ft) (files ev) \<and> \<not> removeall_fails ft
        \<and> rename_fails ft \<longrightarrow>
        snapshot (swapSnapshot ev ft s) = None
        \<and> printed (swapSnapshot ev ft s) = printed s @ [WarnMoveNew])
   \<and> (\<not> tempdir_fails ft \<and> list_all (copies ev ft) (files ev) \<and> \<not> removeall_fails ft
        \<and> \<not> rename_fails ft \<longrightarrow>
        (\<exists>mirror. snapshot (swapSnapshot ev ft s) = Some mirror
            \<and> (\<forall>f. map_of mirror f
                  = (if f \<in> set (files ev) then Some (content (disk ev f)) else None)))
        \<and> printed (swapSnapshot ev ft s) = printed s)"
proof -
  have "map_of (fst (snd (copyAll ev ft (files ev) [] (did MadeTemp s)))) f
          = (if f \<in> set (files ev) then Some (content (disk ev f)) else None)"
    if "list_all (copies ev ft) (files ev)" for f
    using copyAll_content [OF that, of "[]" "did MadeTemp s" f] by simp
  then show ?thesis
    by (simp add: swapSnapshot_snapshot swapSnapshot_printed)
qed

theorem snapshot_rebuild_fail_closed_witness:
  "\<not> list_all (copies one_file (no_faults\<lparr>temp_copy_fails := (\<lambda>p. True)\<rparr>)) (files one_file)
   \<and> snapshot (swapSnapshot one_file (no_faults\<lparr>temp_copy_fails := (\<lambda>p. True)\<rparr>) checkpointed)
       = snapshot checkpointed
   \<and> printed (swapSnapshot one_file (no_faults\<lparr>temp_copy_fails := (\<lambda>p. True)\<rparr>) checkpointed)
       = printed checkpointed @ [WarnNoUpdate]
   \<and> list_all (copies one_file (no_faults\<lparr>rename_fails := True\<rparr>)) (files one_file)
   \<and> rename_fails (no_faults\<lparr>rename_fails := True\<rparr>)
   \<and> snapshot (swapSnapshot one_file (no_faults\<lparr>rename_fails := True\<rparr>) checkpointed) = None
   \<and> printed (swapSnapshot one_file (no_faults\<lparr>rename_fails := True\<rparr>) checkpointed)
       = printed checkpointed @ [WarnMoveNew]
   \<and> snapshot (swapSnapshot one_file no_faults initialized) \<noteq> snapshot initialized
   \<and> snapshot (swapSnapshot one_file no_faults initialized) = Some [(''a.txt'', ''x'')]
   \<and> printed (swapSnapshot one_file no_faults initialized) = printed initialized"
proof -
  have e: "\<not> list_all (copies one_file (no_faults\<lparr>temp_copy_fails := (\<lambda>p. True)\<rparr>)) (files one_file)
    \<and> \<not> tempdir_fails (no_faults\<lparr>temp_copy_fails := (\<lambda>p. True)\<rparr>)
    \<and> list_all (copies one_file (no_faults\<lparr>rename_fails := True\<rparr>)) (files one_file)
    \<and> \<not> tempdir_fails (no_faults\<lparr>rename_fails := True\<rparr>)
    \<and> \<not> removeall_fails (no_faults\<lparr>rename_fails := True\<rparr>)
    \<and> rename_fails (no_faults\<lparr>rename_fails := True\<rparr>)
    \<and> list_all (copies one_file no_faults) (files one_file)
    \<and> \<not> tempdir_fails no_faults \<and> \<not> removeall_fails no_faults \<and> \<not> rename_fails no_faults
    \<and> snapshot (swapSnapshot one_file no_faults initialized) = Some [(''a.txt'', ''x'')]
    \<and> snapshot initialized = Some []"
    by code_simp
  show ?thesis
    using
      snapshot_rebuild_fail_closed [where ev = one_file and s = checkpointed
        and ft = "no_faults\<lparr>temp_copy_fails := (\<lambda>p. True)\<rparr>"]
      snapshot_rebuild_fail_closed [where ev = one_file and s = checkpointed
        and ft = "no_faults\<lparr>rename_fails := True\<rparr>"]
      snapshot_rebuild_fail_closed [where ev = one_file and s = initialized and ft = no_faults]
      e
    by simp
qed

subsection \<open>A run that finds no change\<close>

lemma update_Bumped_D:
  assumes "updateGitnot ev ft s = (Bumped ver, s')"
  shows "gitnot s" "detects ev s" "\<exists>s1. bumpVersion ft (fused ev) s = Some (ver, s1)"
  using assms
  by (auto simp: updateGitnot_def Let_def split: if_splits option.splits prod.splits)

lemma update_NoChanges_D:
  assumes "updateGitnot ev ft s = (NoChanges, s')"
  shows "gitnot s" "\<not> detects ev s" "s' = say NoChangesDetected s"
  using assms
  by (auto simp: updateGitnot_def Let_def split: if_splits option.splits prod.splits)

text \<open>
  C2. A run that finds the three lists empty returns \<^verbatim>\<open>nil\<close> after printing that nothing
  changed, and the state directory is what it was, field for field: no version, changelog,
  snapshot, fingerprint or deleted file is touched and nothing is written at all, whatever
  calls of the operating system would have failed. After a run that bumped the version and
  saved the fingerprints, and after a run that found nothing, the next run on the same
  working directory finds nothing.
\<close>

theorem no_change_no_mutation:
  "(gitnot s \<and> newFiles (oldHashesOf s) (currentOf ev) = []
      \<and> changedFiles (oldHashesOf s) (currentOf ev) = []
      \<and> deletedFiles (oldHashesOf s) (currentOf ev) = [] \<longrightarrow>
      updateGitnot ev ft s = (NoChanges, s\<lparr>printed := printed s @ [NoChangesDetected]\<rparr>))
   \<and> (updateGitnot ev ft s = (Bumped ver, s') \<or> updateGitnot ev ft s = (NoChanges, s') \<longrightarrow>
        updateGitnot ev ft' s' = (NoChanges, s'\<lparr>printed := printed s' @ [NoChangesDetected]\<rparr>)
        \<and> since s' (snd (updateGitnot ev ft' s')) = [])"
proof -
  have a: "updateGitnot ev ft s = (NoChanges, s\<lparr>printed := printed s @ [NoChangesDetected]\<rparr>)"
    if "gitnot s" "newFiles (oldHashesOf s) (currentOf ev) = []"
      "changedFiles (oldHashesOf s) (currentOf ev) = []"
      "deletedFiles (oldHashesOf s) (currentOf ev) = []"
    using that update_no_changes [of s ev ft] by (simp add: detects_def say_def)
  have n: "updateGitnot ev ft' s' = (NoChanges, s'\<lparr>printed := printed s' @ [NoChangesDetected]\<rparr>)
        \<and> since s' (snd (updateGitnot ev ft' s')) = []"
    if "gitnot s'" "\<not> detects ev s'"
    using update_no_changes [OF that, of ft'] by (simp add: say_def since_def)
  have b: "gitnot s' \<and> \<not> detects ev s'" if u: "updateGitnot ev ft s = (Bumped ver, s')"
  proof -
    from update_Bumped_D [OF u] obtain s1 where
      "gitnot s" "detects ev s" "bumpVersion ft (fused ev) s = Some (ver, s1)" by blast
    from update_writes [OF this u] show ?thesis
      by (auto simp: not_detects_saved)
  qed
  have c: "gitnot s' \<and> \<not> detects ev s'" if u: "updateGitnot ev ft s = (NoChanges, s')"
    using update_NoChanges_D [OF u] by (simp add: say_def detects_def oldHashesOf_def)
  show ?thesis
    using a n b c by blast
qed

lemma first_update: "updateGitnot one_file no_faults initialized = (Bumped (fl (1 / 10)), checkpointed)"
  by code_simp

theorem no_change_no_mutation_witness:
  "gitnot checkpointed
   \<and> newFiles (oldHashesOf checkpointed) (currentOf one_file) = []
   \<and> changedFiles (oldHashesOf checkpointed) (currentOf one_file) = []
   \<and> deletedFiles (oldHashesOf checkpointed) (currentOf one_file) = []
   \<and> updateGitnot one_file no_faults initialized = (Bumped (fl (1 / 10)), checkpointed)
   \<and> updateGitnot one_file (no_faults\<lparr>version_write_fails := True\<rparr>) checkpointed
       = (NoChanges, checkpointed\<lparr>printed := printed checkpointed @ [NoChangesDetected]\<rparr>)
   \<and> since checkpointed
         (snd (updateGitnot one_file (no_faults\<lparr>version_write_fails := True\<rparr>) checkpointed)) = []"
proof -
  have h: "gitnot checkpointed
   \<and> newFiles (oldHashesOf checkpointed) (currentOf one_file) = []
   \<and> changedFiles (oldHashesOf checkpointed) (currentOf one_file) = []
   \<and> deletedFiles (oldHashesOf checkpointed) (currentOf one_file) = []"
    by code_simp
  show ?thesis
    using no_change_no_mutation [where s = checkpointed and ev = one_file
        and ft = "no_faults\<lparr>version_write_fails := True\<rparr>"]
      no_change_no_mutation [where s = initialized and ev = one_file and ft = no_faults
        and ver = "fl (1 / 10)" and s' = checkpointed
        and ft' = "no_faults\<lparr>version_write_fails := True\<rparr>"]
      h first_update
    by (simp add: since_def)
qed

subsection \<open>The version file from run to run\<close>

lemma fl_0 [simp]: "fl 0 = 0"
  by (simp add: fl_def)

lemma holds_version_of: "holds_version s n \<Longrightarrow> version_of s = fl (of_int n / 10)"
  by (auto simp: holds_version_def version_of_def)

lemma bump_step:
  assumes "holds_version s n" "n < 2 ^ 40" "bumpVersion ft fu s = Some (ver, s1)"
  shows "ver = fl (of_int (n + 1) / 10)"
    and "s1 = did WroteVersion (s\<lparr>gitnot := True, version_txt := Number (of_int (n + 1) / 10)\<rparr>)"
    and "holds_version s1 (n + 1)"
proof -
  have n: "0 \<le> n" "n < 2 ^ 41" "0 \<le> n + 1" "n + 1 < 2 ^ 41"
    using assms(1,2) by (simp_all add: holds_version_def)
  note b = bumpVersion_Some [OF assms(3)]
  show v: "ver = fl (of_int (n + 1) / 10)"
    using b(1) holds_version_of [OF assms(1)] round1_exact [OF n(1,2)] by simp
  have t: "tenths ver = n + 1"
    unfolding v using n(3,4) by (rule tenths_fl)
  show "s1 = did WroteVersion (s\<lparr>gitnot := True, version_txt := Number (of_int (n + 1) / 10)\<rparr>)"
    using b(2) t by simp
  then show "holds_version s1 (n + 1)"
    using n by (simp add: holds_version_def did_def)
qed

lemma update_unchanged:
  assumes "\<not> (gitnot s \<and> detects ev s \<and> bumpVersion ft (fused ev) s \<noteq> None)"
  shows "updateGitnot ev ft s =
           (if \<not> gitnot s then (NotInitialized, s)
            else if \<not> detects ev s then (NoChanges, say NoChangesDetected s)
            else (Failed, s))"
  using assms by (cases "bumpVersion ft (fused ev) s") (auto simp: updateGitnot_def)

lemma update_step:
  assumes "holds_version s n" "n < 2 ^ 40" "updateGitnot ev ft s = (r, s')"
  shows "if gitnot s \<and> detects ev s \<and> bumpVersion ft (fused ev) s \<noteq> None
         then holds_version s' (n + 1) else version_txt s' = version_txt s"
proof (cases "gitnot s \<and> detects ev s \<and> bumpVersion ft (fused ev) s \<noteq> None")
  case True
  then obtain ver s1 where b: "bumpVersion ft (fused ev) s = Some (ver, s1)" by auto
  from update_writes [OF _ _ b assms(3)] True
  have "version_txt s' = Number (of_int (tenths ver) / 10)" by blast
  moreover have "version_txt s1 = Number (of_int (tenths ver) / 10)"
    using bumpVersion_Some(2) [OF b] by (simp add: did_def)
  ultimately have "version_txt s' = version_txt s1" by simp
  then have "holds_version s' (n + 1)"
    using bump_step(3) [OF assms(1,2) b] by (simp add: holds_version_def)
  with True show ?thesis by simp
next
  case False
  from update_unchanged [OF this] assms(3)
  have "s' = s \<or> s' = say NoChangesDetected s"
    by (auto split: if_splits)
  with False show ?thesis by (auto simp: say_def)
qed

lemma no_control_events:
  "list_all isLogEvent l \<Longrightarrow> SavedHashes \<notin> set l \<and> WroteVersion \<notin> set l"
  "list_all isSwapEvent l \<Longrightarrow> SavedHashes \<notin> set l \<and> WroteVersion \<notin> set l"
  by (auto simp: list_all_iff)

lemma bump_ok_iff: "bump_ok ft s \<longleftrightarrow> bumpVersion ft fu s \<noteq> None"
  by (auto simp: bump_ok_def bumpVersion_None)

subsection \<open>The fingerprints are written last\<close>

text \<open>
  C1, as the code has it. The fingerprints are written at most once in a run and as its
  last change, after the version, the changelogs, the deleted store and the snapshot. They
  are written exactly when the run detects a change, the version was bumped, the snapshot
  directory exists and the write itself succeeds: a missing snapshot directory or a failed
  bump leaves \<^verbatim>\<open>hashes.json\<close> as it was, while no failure of an append, of the temporary
  directory, of a copy into it, of the removal of the old mirror or of the rename stands in
  the way.
\<close>

theorem fingerprints_written_last:
  "updateGitnot ev ft s = (r, s') \<longrightarrow>
     (SavedHashes \<in> set (since s s') \<longleftrightarrow>
        gitnot s \<and> detects ev s \<and> bump_ok ft s \<and> snapshot s \<noteq> None \<and> \<not> hashes_write_fails ft)
     \<and> (SavedHashes \<in> set (since s s') \<longrightarrow>
          hashes_json s' = Some (currentOf ev) \<and> last (since s s') = SavedHashes
          \<and> SavedHashes \<notin> set (butlast (since s s')) \<and> (\<exists>ver. r = Bumped ver))
     \<and> (SavedHashes \<notin> set (since s s') \<longrightarrow>
          hashes_json s' = hashes_json s \<and> (\<forall>ver. r \<noteq> Bumped ver))"
proof
  assume u: "updateGitnot ev ft s = (r, s')"
  show "(SavedHashes \<in> set (since s s') \<longleftrightarrow>
        gitnot s \<and> detects ev s \<and> bump_ok ft s \<and> snapshot s \<noteq> None \<and> \<not> hashes_write_fails ft)
     \<and> (SavedHashes \<in> set (since s s') \<longrightarrow>
          hashes_json s' = Some (currentOf ev) \<and> last (since s s') = SavedHashes
          \<and> SavedHashes \<notin> set (butlast (since s s')) \<and> (\<exists>ver. r = Bumped ver))
     \<and> (SavedHashes \<notin> set (since s s') \<longrightarrow>
          hashes_json s' = hashes_json s \<and> (\<forall>ver. r \<noteq> Bumped ver))"
  proof (cases "gitnot s \<and> detects ev s \<and> bump_ok ft s")
    case False
    then have "\<not> (gitnot s \<and> detects ev s \<and> bumpVersion ft (fused ev) s \<noteq> None)"
      using bump_ok_iff [of ft s "fused ev"] by simp
    from update_unchanged [OF this] u
    have "(r = NotInitialized \<or> r = NoChanges \<or> r = Failed) \<and> (s' = s \<or> s' = say NoChangesDetected s)"
      by (auto split: if_splits)
    with False show ?thesis
      by (auto simp: since_def say_def)
  next
    case True
    then obtain ver s1 where b: "bumpVersion ft (fused ev) s = Some (ver, s1)"
      using bump_ok_iff [of ft s "fused ev"] by auto
    have gs: "gitnot s" "detects ev s" using True by auto
    from update_writes [OF gs b u] obtain logs swaps where
      l: "list_all isLogEvent logs" "list_all isSwapEvent swaps"
      and w: "since s s' = WroteVersion # logs @ swaps @ (if r = Bumped ver then [SavedHashes] else [])"
      and h: "hashes_json s' = (if r = Bumped ver then Some (currentOf ev) else hashes_json s)"
      and r: "r = Bumped ver \<longleftrightarrow> snapshot s \<noteq> None \<and> \<not> hashes_write_fails ft"
         "r = SnapshotMissing \<longleftrightarrow> snapshot s = None"
         "r = Failed \<longleftrightarrow> snapshot s \<noteq> None \<and> hashes_write_fails ft"
      by (elim exE conjE) (rule that)
    have other: "\<forall>v. r \<noteq> Bumped v" if "r \<noteq> Bumped ver"
      using that r by (cases r) auto
    show ?thesis
    proof (cases "r = Bumped ver")
      case True
      then have "since s s' = (WroteVersion # logs @ swaps) @ [SavedHashes]"
        using w by simp
      then show ?thesis
        using True \<open>gitnot s \<and> detects ev s \<and> bump_ok ft s\<close> h r(1) no_control_events(1) [OF l(1)]
          no_control_events(2) [OF l(2)]
        by (simp del: append_Cons append_assoc)
    next
      case False
      then show ?thesis
        using \<open>gitnot s \<and> detects ev s \<and> bump_ok ft s\<close> w h r(1) other
          no_control_events(1) [OF l(1)] no_control_events(2) [OF l(2)]
        by auto
    qed
  qed
qed

theorem fingerprints_written_last_witness:
  "updateGitnot one_file no_faults initialized = (Bumped (fl (1 / 10)), checkpointed)
   \<and> SavedHashes \<in> set (since initialized checkpointed)
   \<and> hashes_json checkpointed = Some (currentOf one_file)
   \<and> last (since initialized checkpointed) = SavedHashes
   \<and> fst (updateGitnot one_file no_faults (initialized\<lparr>snapshot := None\<rparr>)) = SnapshotMissing
   \<and> SavedHashes \<notin> set (since (initialized\<lparr>snapshot := None\<rparr>)
                             (snd (updateGitnot one_file no_faults (initialized\<lparr>snapshot := None\<rparr>))))
   \<and> hashes_json (snd (updateGitnot one_file no_faults (initialized\<lparr>snapshot := None\<rparr>)))
       = hashes_json (initialized\<lparr>snapshot := None\<rparr>)"
proof -
  have e: "SavedHashes \<in> set (since initialized checkpointed)
    \<and> fst (updateGitnot one_file no_faults (initialized\<lparr>snapshot := None\<rparr>)) = SnapshotMissing
    \<and> SavedHashes \<notin> set (since (initialized\<lparr>snapshot := None\<rparr>)
                             (snd (updateGitnot one_file no_faults (initialized\<lparr>snapshot := None\<rparr>))))"
    by code_simp
  show ?thesis
    using
      fingerprints_written_last [where ev = one_file and ft = no_faults and s = initialized
        and r = "Bumped (fl (1 / 10))" and s' = checkpointed]
      fingerprints_written_last [where ev = one_file and ft = no_faults
        and s = "initialized\<lparr>snapshot := None\<rparr>"
        and r = "fst (updateGitnot one_file no_faults (initialized\<lparr>snapshot := None\<rparr>))"
        and s' = "snd (updateGitnot one_file no_faults (initialized\<lparr>snapshot := None\<rparr>))"]
      e first_update
    by (simp add: prod_eq_iff)
qed

text \<open>
  C1 as the specification states it fails on the code. In the one-file directory the first
  Update detects the new file; the rename of the new snapshot into place fails, the state
  directory is left without a snapshot and the warning is printed, and the run still saves
  the fingerprints and returns the bumped version. The same happens when the copy into the
  temporary directory fails: the old mirror stays and the fingerprints are saved.
\<close>

theorem fingerprints_saved_after_failed_swap:
  "detects one_file initialized
   \<and> rename_fails (no_faults\<lparr>rename_fails := True\<rparr>)
   \<and> fst (updateGitnot one_file (no_faults\<lparr>rename_fails := True\<rparr>) initialized) = Bumped (fl (1 / 10))
   \<and> snapshot (snd (updateGitnot one_file (no_faults\<lparr>rename_fails := True\<rparr>) initialized)) = None
   \<and> WarnMoveNew \<in> set (printed (snd (updateGitnot one_file (no_faults\<lparr>rename_fails := True\<rparr>) initialized)))
   \<and> hashes_json (snd (updateGitnot one_file (no_faults\<lparr>rename_fails := True\<rparr>) initialized))
       = Some [(''a.txt'', ''0000000000000000000000000000000000000000'')]
   \<and> hashes_json initialized = Some []
   \<and> temp_copy_fails (no_faults\<lparr>temp_copy_fails := (\<lambda>p. True)\<rparr>) ''a.txt''
   \<and> fst (updateGitnot one_file (no_faults\<lparr>temp_copy_fails := (\<lambda>p. True)\<rparr>) initialized)
       = Bumped (fl (1 / 10))
   \<and> snapshot (snd (updateGitnot one_file (no_faults\<lparr>temp_copy_fails := (\<lambda>p. True)\<rparr>) initialized))
       = Some []
   \<and> WarnNoUpdate \<in> set (printed (snd (updateGitnot one_file
          (no_faults\<lparr>temp_copy_fails := (\<lambda>p. True)\<rparr>) initialized)))
   \<and> hashes_json (snd (updateGitnot one_file (no_faults\<lparr>temp_copy_fails := (\<lambda>p. True)\<rparr>) initialized))
       = Some [(''a.txt'', ''0000000000000000000000000000000000000000'')]"
  by code_simp

subsection \<open>The version is written first\<close>

text \<open>
  C9. In a run that detects a change the version file is the first thing written: when
  its read or write fails the run returns the error with the state untouched, and otherwise
  the changes of the run are the write of the version, then the appends and the moves of
  deleted files, then the steps of the snapshot replacement, then (only in a run that
  returns the bumped version) the fingerprints. A run that comes back with an error or with
  the missing-snapshot notice after the bump leaves the version one tenth higher and
  \<^verbatim>\<open>hashes.json\<close> as it was; the same change is then detected again, and the next run whose
  bump succeeds raises the version by another tenth.
\<close>

theorem version_bumped_first:
  "gitnot s \<and> detects ev s \<and> updateGitnot ev ft s = (r, s') \<and> holds_version s n \<and> n < 2 ^ 40 - 1 \<longrightarrow>
     (\<not> bump_ok ft s \<longrightarrow> r = Failed \<and> s' = s)
     \<and> (bump_ok ft s \<longrightarrow>
          holds_version s' (n + 1)
          \<and> (\<exists>logs swaps.
                since s s'
                  = WroteVersion # logs @ swaps @ (if \<exists>ver. r = Bumped ver then [SavedHashes] else [])
                \<and> list_all isLogEvent logs \<and> list_all isSwapEvent swaps)
          \<and> (r = Failed \<or> r = SnapshotMissing \<longrightarrow>
                hashes_json s' = hashes_json s \<and> SavedHashes \<notin> set (since s s')
                \<and> gitnot s' \<and> detects ev s'
                \<and> (\<forall>ft'. bump_ok ft' s' \<longrightarrow>
                      holds_version (snd (updateGitnot ev ft' s')) (n + 2)
                      \<and> hd (since s' (snd (updateGitnot ev ft' s'))) = WroteVersion)))"
proof
  assume a: "gitnot s \<and> detects ev s \<and> updateGitnot ev ft s = (r, s') \<and> holds_version s n \<and> n < 2 ^ 40 - 1"
  then have u: "updateGitnot ev ft s = (r, s')" and hv: "holds_version s n" and n: "n < 2 ^ 40"
    and gs: "gitnot s" "detects ev s"
    by auto
  have 1: "r = Failed \<and> s' = s" if "\<not> bump_ok ft s"
  proof -
    have "\<not> (gitnot s \<and> detects ev s \<and> bumpVersion ft (fused ev) s \<noteq> None)"
      using that bump_ok_iff [of ft s "fused ev"] by simp
    from update_unchanged [OF this] a show ?thesis by auto
  qed
  have 2: "holds_version s' (n + 1)
          \<and> (\<exists>logs swaps.
                since s s'
                  = WroteVersion # logs @ swaps @ (if \<exists>ver. r = Bumped ver then [SavedHashes] else [])
                \<and> list_all isLogEvent logs \<and> list_all isSwapEvent swaps)
          \<and> (r = Failed \<or> r = SnapshotMissing \<longrightarrow>
                hashes_json s' = hashes_json s \<and> SavedHashes \<notin> set (since s s')
                \<and> gitnot s' \<and> detects ev s'
                \<and> (\<forall>ft'. bump_ok ft' s' \<longrightarrow>
                      holds_version (snd (updateGitnot ev ft' s')) (n + 2)
                      \<and> hd (since s' (snd (updateGitnot ev ft' s'))) = WroteVersion))"
    if ok: "bump_ok ft s"
  proof -
    obtain ver s1 where b: "bumpVersion ft (fused ev) s = Some (ver, s1)"
      using ok bump_ok_iff [of ft s "fused ev"] by auto
    from update_writes [OF gs b u] obtain logs swaps where
      l: "list_all isLogEvent logs" "list_all isSwapEvent swaps"
      and w: "since s s' = WroteVersion # logs @ swaps @ (if r = Bumped ver then [SavedHashes] else [])"
      and h: "hashes_json s' = (if r = Bumped ver then Some (currentOf ev) else hashes_json s)"
      and g: "gitnot s'"
      and r: "r = Bumped ver \<longleftrightarrow> snapshot s \<noteq> None \<and> \<not> hashes_write_fails ft"
         "r = SnapshotMissing \<longleftrightarrow> snapshot s = None"
         "r = Failed \<longleftrightarrow> snapshot s \<noteq> None \<and> hashes_write_fails ft"
      by (elim exE conjE) (rule that)
    have same: "(\<exists>v. r = Bumped v) \<longleftrightarrow> r = Bumped ver"
      using r by (cases r) auto
    have hv': "holds_version s' (n + 1)"
      using update_step [OF hv n u] a ok bump_ok_iff [of ft s "fused ev"] by auto
    have again: "holds_version (snd (updateGitnot ev ft' s')) (n + 2)
                  \<and> hd (since s' (snd (updateGitnot ev ft' s'))) = WroteVersion"
      if f: "r = Failed \<or> r = SnapshotMissing" and ok': "bump_ok ft' s'" for ft'
    proof -
      have d: "detects ev s'"
        using f h a detects_cong [of s' s ev] by auto
      obtain r2 s2 where u2: "updateGitnot ev ft' s' = (r2, s2)"
        by (cases "updateGitnot ev ft' s'")
      obtain v2 t1 where b2: "bumpVersion ft' (fused ev) s' = Some (v2, t1)"
        using ok' bump_ok_iff [of ft' s' "fused ev"] by auto
      have "n + 1 < 2 ^ 40" using a by simp
      from update_step [OF hv' this u2] g d ok' bump_ok_iff [of ft' s' "fused ev"]
      have "holds_version s2 (n + 2)" by (simp add: add.commute add.left_commute)
      moreover from update_writes [OF g d b2 u2]
      have "hd (since s' s2) = WroteVersion" by auto
      ultimately show ?thesis by (simp add: u2)
    qed
    have "hashes_json s' = hashes_json s \<and> SavedHashes \<notin> set (since s s') \<and> gitnot s' \<and> detects ev s'"
      if f: "r = Failed \<or> r = SnapshotMissing"
      using f w h g a detects_cong [of s' s ev] no_control_events(1) [OF l(1)]
        no_control_events(2) [OF l(2)]
      by auto
    with hv' w l same again show ?thesis
      by (simp only: same) blast
  qed
  from 1 2 show "(\<not> bump_ok ft s \<longrightarrow> r = Failed \<and> s' = s)
     \<and> (bump_ok ft s \<longrightarrow>
          holds_version s' (n + 1)
          \<and> (\<exists>logs swaps.
                since s s'
                  = WroteVersion # logs @ swaps @ (if \<exists>ver. r = Bumped ver then [SavedHashes] else [])
                \<and> list_all isLogEvent logs \<and> list_all isSwapEvent swaps)
          \<and> (r = Failed \<or> r = SnapshotMissing \<longrightarrow>
                hashes_json s' = hashes_json s \<and> SavedHashes \<notin> set (since s s')
                \<and> gitnot s' \<and> detects ev s'
                \<and> (\<forall>ft'. bump_ok ft' s' \<longrightarrow>
                      holds_version (snd (updateGitnot ev ft' s')) (n + 2)
                      \<and> hd (since s' (snd (updateGitnot ev ft' s'))) = WroteVersion)))"
    by blast
qed

theorem version_bumped_first_witness:
  "gitnot missing_snapshot \<and> detects one_file missing_snapshot
   \<and> holds_version missing_snapshot 0 \<and> (0::int) < 2 ^ 40 - 1
   \<and> \<not> bump_ok (no_faults\<lparr>version_write_fails := True\<rparr>) missing_snapshot
   \<and> updateGitnot one_file (no_faults\<lparr>version_write_fails := True\<rparr>) missing_snapshot
       = (Failed, missing_snapshot)
   \<and> bump_ok no_faults missing_snapshot
   \<and> fst (updateGitnot one_file no_faults missing_snapshot) = SnapshotMissing
   \<and> version_txt (snd (updateGitnot one_file no_faults missing_snapshot)) = Number (1 / 10)
   \<and> hashes_json (snd (updateGitnot one_file no_faults missing_snapshot)) = hashes_json missing_snapshot
   \<and> hd (since missing_snapshot (snd (updateGitnot one_file no_faults missing_snapshot))) = WroteVersion
   \<and> bump_ok no_faults (snd (updateGitnot one_file no_faults missing_snapshot))
   \<and> holds_version
        (snd (updateGitnot one_file no_faults (snd (updateGitnot one_file no_faults missing_snapshot)))) 2"
proof -
  have e: "gitnot missing_snapshot \<and> detects one_file missing_snapshot
    \<and> \<not> bump_ok (no_faults\<lparr>version_write_fails := True\<rparr>) missing_snapshot
    \<and> fst (updateGitnot one_file (no_faults\<lparr>version_write_fails := True\<rparr>) missing_snapshot) = Failed
    \<and> bump_ok no_faults missing_snapshot
    \<and> fst (updateGitnot one_file no_faults missing_snapshot) = SnapshotMissing
    \<and> bump_ok no_faults (snd (updateGitnot one_file no_faults missing_snapshot))"
    by code_simp
  have v: "holds_version missing_snapshot 0"
    by (simp add: holds_version_def missing_snapshot_def initialized_def)
  show ?thesis
    using
      version_bumped_first [where s = missing_snapshot and ev = one_file
        and ft = "no_faults\<lparr>version_write_fails := True\<rparr>" and n = 0
        and r = "fst (updateGitnot one_file (no_faults\<lparr>version_write_fails := True\<rparr>) missing_snapshot)"
        and s' = "snd (updateGitnot one_file (no_faults\<lparr>version_write_fails := True\<rparr>) missing_snapshot)"]
      version_bumped_first [where s = missing_snapshot and ev = one_file and ft = no_faults and n = 0
        and r = "fst (updateGitnot one_file no_faults missing_snapshot)"
        and s' = "snd (updateGitnot one_file no_faults missing_snapshot)"]
      e v
    by (auto simp: prod_eq_iff holds_version_def)
qed

subsection \<open>Initialize\<close>

lemma dom_put: "dom (map_of (put k v m)) = insert k (dom (map_of m))"
  by (auto simp: map_of_put dom_def)

lemma initFiles_ran:
  "fst (initFiles ev ft fs hashes s) \<longleftrightarrow> list_all (\<lambda>f. \<not> snap_mkdir_fails ft f) fs"
  by (induction fs arbitrary: hashes s) auto

lemma initFiles_hashes:
  assumes "list_all (\<lambda>f. \<not> snap_mkdir_fails ft f) fs"
  shows "dom (map_of (fst (snd (initFiles ev ft fs hashes s))))
           = dom (map_of hashes) \<union> {f \<in> set fs. snapshotted ev ft f}"
  using assms by (induction fs arbitrary: hashes s) (auto simp: dom_put)

lemma initFiles_frame:
  "printed (snd (snd (initFiles ev ft fs hashes s))) = printed s
   \<and> version_txt (snd (snd (initFiles ev ft fs hashes s))) = version_txt s
   \<and> gitnot (snd (snd (initFiles ev ft fs hashes s))) = gitnot s"
  by (induction fs arbitrary: hashes s) (simp_all add: appendToFile_def did_def)

lemma initFiles_prefix: "prefix (writes s) (writes (snd (snd (initFiles ev ft fs hashes s))))"
proof (induction fs arbitrary: hashes s)
  case Nil
  show ?case by simp
next
  case (Cons f fs)
  define t where "t = appendToFile ft f (originalText f)
               (did (CopiedToSnapshot f)
                 (s\<lparr>snapshot :=
                      Some (put f (content (disk ev f))
                              (case snapshot s of None \<Rightarrow> [] | Some m \<Rightarrow> m))\<rparr>))"
  have "prefix (writes s) (writes t)"
    by (simp add: t_def appendToFile_def did_def)
  from prefix_order.trans [OF this Cons [of t]] Cons [of s]
  show ?case by (simp add: t_def)
qed

lemma initFiles_skips:
  assumes "\<not> snapshotted ev ft f"
  shows "map_of (changelogs (snd (snd (initFiles ev ft fs hashes s)))) f = map_of (changelogs s) f
   \<and> (AppendedLog f \<in> set (writes (snd (snd (initFiles ev ft fs hashes s))))
        \<longleftrightarrow> AppendedLog f \<in> set (writes s))
   \<and> (CopiedToSnapshot f \<in> set (writes (snd (snd (initFiles ev ft fs hashes s))))
        \<longleftrightarrow> CopiedToSnapshot f \<in> set (writes s))"
proof (induction fs arbitrary: hashes s)
  case Nil
  show ?case by simp
next
  case (Cons g fs)
  show ?case
  proof (cases "snapshotted ev ft g")
    case True
    then have "g \<noteq> f" using assms by auto
    then show ?thesis
      using True
        Cons [of "put g (hashFile (sha ev) g (disk ev g)) hashes"
          "appendToFile ft g (originalText g)
               (did (CopiedToSnapshot g)
                 (s\<lparr>snapshot :=
                      Some (put g (content (disk ev g))
                              (case snapshot s of None \<Rightarrow> [] | Some m \<Rightarrow> m))\<rparr>))"]
      by (auto simp: appendToFile_def did_def map_of_put)
  next
    case False
    then show ?thesis using Cons [of hashes s] by simp
  qed
qed

lemma initFiles_events:
  assumes "\<not> snapshotted ev ft f"
  shows "\<exists>evs. writes (snd (snd (initFiles ev ft fs hashes s))) = writes s @ evs
           \<and> AppendedLog f \<notin> set evs \<and> CopiedToSnapshot f \<notin> set evs"
proof (induction fs arbitrary: hashes s)
  case Nil
  show ?case by simp
next
  case (Cons g fs)
  show ?case
  proof (cases "snapshotted ev ft g \<and> \<not> snap_mkdir_fails ft g")
    case True
    then have gf: "g \<noteq> f" using assms by auto
    define t where "t = appendToFile ft g (originalText g)
               (did (CopiedToSnapshot g)
                 (s\<lparr>snapshot :=
                      Some (put g (content (disk ev g))
                              (case snapshot s of None \<Rightarrow> [] | Some m \<Rightarrow> m))\<rparr>))"
    obtain a where a: "writes t = writes s @ a" "AppendedLog f \<notin> set a" "CopiedToSnapshot f \<notin> set a"
      using gf by (cases "append_fails ft g") (auto simp: t_def appendToFile_def did_def)
    from Cons [of "put g (hashFile (sha ev) g (disk ev g)) hashes" t]
    obtain b where b: "writes (snd (snd (initFiles ev ft fs (put g (hashFile (sha ev) g (disk ev g)) hashes) t)))
        = writes t @ b" "AppendedLog f \<notin> set b" "CopiedToSnapshot f \<notin> set b"
      by blast
    show ?thesis
      using True a b by (intro exI [of _ "a @ b"]) (simp add: t_def)
  next
    case False
    then show ?thesis using Cons [of hashes s] by auto
  qed
qed

lemma initFiles_changelog:
  assumes "\<not> snapshotted ev ft f"
  shows "map_of (changelogs (snd (snd (initFiles ev ft fs hashes s)))) f = map_of (changelogs s) f"
  using initFiles_skips [OF assms] by blast

lemma dom_currentOf: "dom (map_of (currentOf ev)) = set (files ev)"
  by (auto simp: currentOf_def dom_map_of_conv_image_fst image_iff)

text \<open>
  C10. Initialize where a tracked file cannot be copied into the snapshot while every
  other call succeeds. The run returns \<^verbatim>\<open>nil\<close> and prints the two lines of success and nothing
  else. The saved fingerprint map has exactly the files whose copy succeeded as its keys,
  so the file is not among them and the key set is a proper subset of the tracked list;
  the changelog of the file is not touched. On the next Update over the same working
  directory the file is classified as new.
\<close>

theorem init_skips_failed_copy:
  "\<not> mkdirs_fail ft \<and> (config_json s \<or> \<not> config_write_fails ft)
   \<and> list_all (\<lambda>g. \<not> snap_mkdir_fails ft g) (files ev)
   \<and> \<not> hashes_write_fails ft \<and> \<not> version_write_fails ft
   \<and> f \<in> set (files ev) \<and> \<not> snapshotted ev ft f \<and> initGitnot ev ft s = (ok, s') \<longrightarrow>
     ok
     \<and> (\<exists>hashes. hashes_json s' = Some hashes
           \<and> printed s' = printed s @ [Initialized, Tracking (length hashes)]
           \<and> dom (map_of hashes) = {g \<in> set (files ev). snapshotted ev ft g}
           \<and> f \<notin> dom (map_of hashes)
           \<and> dom (map_of hashes) \<subset> set (files ev))
     \<and> map_of (changelogs s') f = map_of (changelogs s) f
     \<and> AppendedLog f \<notin> set (since s s') \<and> CopiedToSnapshot f \<notin> set (since s s')
     \<and> f \<in> set (newFiles (oldHashesOf s') (currentOf ev))"
proof
  assume a: "\<not> mkdirs_fail ft \<and> (config_json s \<or> \<not> config_write_fails ft)
   \<and> list_all (\<lambda>g. \<not> snap_mkdir_fails ft g) (files ev)
   \<and> \<not> hashes_write_fails ft \<and> \<not> version_write_fails ft
   \<and> f \<in> set (files ev) \<and> \<not> snapshotted ev ft f \<and> initGitnot ev ft s = (ok, s')"
  then have f: "f \<in> set (files ev)" "\<not> snapshotted ev ft f"
    and mk: "list_all (\<lambda>g. \<not> snap_mkdir_fails ft g) (files ev)"
    by auto
  define s1 where "s1 = did MadeDirs
                      (s\<lparr>gitnot := True,
                          snapshot := Some (case snapshot s of None \<Rightarrow> [] | Some m \<Rightarrow> m)\<rparr>)"
  define s2 where "s2 = (if config_json s1 then s1 else did SavedConfig (s1\<lparr>config_json := True\<rparr>))"
  define hashes where "hashes = fst (snd (initFiles ev ft (files ev) [] s2))"
  define s3 where "s3 = snd (snd (initFiles ev ft (files ev) [] s2))"
  have i: "initFiles ev ft (files ev) [] s2 = (True, hashes, s3)"
    using initFiles_ran [of ev ft "files ev" "[]" s2] mk
    by (cases "initFiles ev ft (files ev) [] s2") (simp add: hashes_def s3_def)
  have c: "config_json s1 = config_json s" by (simp add: s1_def did_def)
  have res: "ok"
    "s' = say (Tracking (length hashes)) (say Initialized
             (did WroteVersion
               ((did SavedHashes (s3\<lparr>hashes_json := Some hashes\<rparr>))
                  \<lparr>gitnot := True, version_txt := Number (of_int (tenths 0) / 10)\<rparr>)))"
    using a i c unfolding initGitnot_def s1_def [symmetric] Let_def s2_def [symmetric]
    by (auto simp: writeVersion_def)
  have d: "dom (map_of hashes) = {g \<in> set (files ev). snapshotted ev ft g}"
    unfolding hashes_def using initFiles_hashes [OF mk, of ev "[]" s2] by simp
  have w2: "\<exists>evs. writes s2 = writes s @ evs \<and> AppendedLog f \<notin> set evs \<and> CopiedToSnapshot f \<notin> set evs"
    by (simp add: s2_def s1_def did_def)
  from initFiles_events [OF f(2), of "files ev" "[]" s2] w2
  obtain evs where evs: "writes s3 = writes s @ evs" "AppendedLog f \<notin> set evs"
    "CopiedToSnapshot f \<notin> set evs"
    unfolding s3_def by auto
  have cl: "map_of (changelogs s3) f = map_of (changelogs s) f"
    unfolding s3_def using initFiles_changelog [OF f(2), of "files ev" "[]" s2]
    by (simp add: s2_def s1_def did_def)
  have p: "printed s3 = printed s"
    unfolding s3_def using initFiles_frame [of ev ft "files ev" "[]" s2]
    by (simp add: s2_def s1_def did_def)
  have new: "f \<in> set (newFiles (oldHashesOf s') (currentOf ev))"
    using f d by (simp add: res(2) set_newFiles dom_currentOf oldHashesOf_def say_def did_def)
  show "ok
     \<and> (\<exists>hashes. hashes_json s' = Some hashes
           \<and> printed s' = printed s @ [Initialized, Tracking (length hashes)]
           \<and> dom (map_of hashes) = {g \<in> set (files ev). snapshotted ev ft g}
           \<and> f \<notin> dom (map_of hashes)
           \<and> dom (map_of hashes) \<subset> set (files ev))
     \<and> map_of (changelogs s') f = map_of (changelogs s) f
     \<and> AppendedLog f \<notin> set (since s s') \<and> CopiedToSnapshot f \<notin> set (since s s')
     \<and> f \<in> set (newFiles (oldHashesOf s') (currentOf ev))"
    using res(1) new d f evs cl p
    by (auto simp: res(2) say_def did_def since_def intro!: exI [of _ hashes])
qed

theorem init_skips_failed_copy_witness:
  "\<not> mkdirs_fail (no_faults\<lparr>snap_copy_fails := (\<lambda>p. True)\<rparr>)
   \<and> \<not> config_write_fails (no_faults\<lparr>snap_copy_fails := (\<lambda>p. True)\<rparr>)
   \<and> list_all (\<lambda>g. \<not> snap_mkdir_fails (no_faults\<lparr>snap_copy_fails := (\<lambda>p. True)\<rparr>) g) (files one_file)
   \<and> \<not> hashes_write_fails (no_faults\<lparr>snap_copy_fails := (\<lambda>p. True)\<rparr>)
   \<and> \<not> version_write_fails (no_faults\<lparr>snap_copy_fails := (\<lambda>p. True)\<rparr>)
   \<and> ''a.txt'' \<in> set (files one_file)
   \<and> \<not> snapshotted one_file (no_faults\<lparr>snap_copy_fails := (\<lambda>p. True)\<rparr>) ''a.txt''
   \<and> fst (initGitnot one_file (no_faults\<lparr>snap_copy_fails := (\<lambda>p. True)\<rparr>) uninitialized)
   \<and> hashes_json (snd (initGitnot one_file (no_faults\<lparr>snap_copy_fails := (\<lambda>p. True)\<rparr>) uninitialized))
       = Some []
   \<and> printed (snd (initGitnot one_file (no_faults\<lparr>snap_copy_fails := (\<lambda>p. True)\<rparr>) uninitialized))
       = [Initialized, Tracking 0]
   \<and> changelogs (snd (initGitnot one_file (no_faults\<lparr>snap_copy_fails := (\<lambda>p. True)\<rparr>) uninitialized)) = []
   \<and> ''a.txt'' \<in> set (newFiles
        (oldHashesOf (snd (initGitnot one_file (no_faults\<lparr>snap_copy_fails := (\<lambda>p. True)\<rparr>) uninitialized)))
        (currentOf one_file))"
proof -
  have e: "\<not> mkdirs_fail (no_faults\<lparr>snap_copy_fails := (\<lambda>p. True)\<rparr>)
   \<and> \<not> config_write_fails (no_faults\<lparr>snap_copy_fails := (\<lambda>p. True)\<rparr>)
   \<and> list_all (\<lambda>g. \<not> snap_mkdir_fails (no_faults\<lparr>snap_copy_fails := (\<lambda>p. True)\<rparr>) g) (files one_file)
   \<and> \<not> hashes_write_fails (no_faults\<lparr>snap_copy_fails := (\<lambda>p. True)\<rparr>)
   \<and> \<not> version_write_fails (no_faults\<lparr>snap_copy_fails := (\<lambda>p. True)\<rparr>)
   \<and> ''a.txt'' \<in> set (files one_file)
   \<and> \<not> snapshotted one_file (no_faults\<lparr>snap_copy_fails := (\<lambda>p. True)\<rparr>) ''a.txt''
   \<and> hashes_json (snd (initGitnot one_file (no_faults\<lparr>snap_copy_fails := (\<lambda>p. True)\<rparr>) uninitialized))
       = Some []
   \<and> printed (snd (initGitnot one_file (no_faults\<lparr>snap_copy_fails := (\<lambda>p. True)\<rparr>) uninitialized))
       = [Initialized, Tracking 0]
   \<and> changelogs (snd (initGitnot one_file (no_faults\<lparr>snap_copy_fails := (\<lambda>p. True)\<rparr>) uninitialized)) = []"
    by code_simp
  show ?thesis
    using
      init_skips_failed_copy [where ft = "no_faults\<lparr>snap_copy_fails := (\<lambda>p. True)\<rparr>"
        and s = uninitialized and ev = one_file and f = "''a.txt''"
        and ok = "fst (initGitnot one_file (no_faults\<lparr>snap_copy_fails := (\<lambda>p. True)\<rparr>) uninitialized)"
        and s' = "snd (initGitnot one_file (no_faults\<lparr>snap_copy_fails := (\<lambda>p. True)\<rparr>) uninitialized)"]
      e
    by (simp add: prod_eq_iff)
qed

subsection \<open>The version counter\<close>

lemma round1_spec_tenth:
  assumes "0 \<le> n"
  shows "round1_spec (of_int n / 10 + 1 / 10) = of_int (n + 1) / 10"
proof -
  have "(of_int n / 10 + 1 / 10) * 10 + 1 / 2 = (of_int (n + 1) + 1 / 2 :: rat)"
    by simp
  moreover have "\<lfloor>(of_int (n + 1) + 1 / 2 :: rat)\<rfloor> = n + 1"
    by (simp add: floor_unique)
  moreover have "(0::rat) \<le> of_int (n + 1) + 1 / 2"
    using assms by simp
  ultimately show ?thesis
    by (simp add: round1_spec_def goInt_def)
qed

lemma runs_version:
  assumes "holds_version s n" "n + int (length rs) < 2 ^ 40"
  shows "holds_version (runs rs s) (n + int (bumps rs s)) \<and> bumps rs s \<le> length rs"
  using assms
proof (induction rs arbitrary: s n)
  case Nil
  then show ?case by simp
next
  case (Cons p rs)
  obtain ev ft where p: "p = (ev, ft)" by (cases p)
  obtain r s' where u: "updateGitnot ev ft s = (r, s')" by (cases "updateGitnot ev ft s")
  have n: "n < 2 ^ 40" using Cons.prems by simp
  note st = update_step [OF Cons.prems(1) n u]
  show ?case
  proof (cases "gitnot s \<and> detects ev s \<and> bump_ok ft s")
    case True
    then have h: "holds_version s' (n + 1)"
      using st bump_ok_iff [of ft s "fused ev"] by simp
    have "n + 1 + int (length rs) < 2 ^ 40" using Cons.prems by simp
    note ih = Cons.IH [OF h this]
    have "bumps (p # rs) s = 1 + bumps rs s'" "runs (p # rs) s = runs rs s'"
      using True by (simp_all add: p u)
    with ih show ?thesis
      by (simp add: add.assoc)
  next
    case False
    then have "version_txt s' = version_txt s"
      using st bump_ok_iff [of ft s "fused ev"] by auto
    then have h: "holds_version s' n"
      using Cons.prems(1) by (simp add: holds_version_def)
    have "n + int (length rs) < 2 ^ 40" using Cons.prems by simp
    note ih = Cons.IH [OF h this]
    have "bumps (p # rs) s = bumps rs s'" "runs (p # rs) s = runs rs s'"
      using False by (simp_all add: p u)
    with ih show ?thesis
      by simp
  qed
qed

text \<open>
  C5. The version file holds \<open>n\<close> tenths, fewer than \<open>2 ^ 40\<close> (or there is no readable version
  and \<open>n\<close> is 0). When its read and its write succeed, bumpVersion returns the \<^verbatim>\<open>float64\<close>
  nearest to the rounding of the version plus one tenth and writes that rounding, which is
  \<open>n + 1\<close> tenths, with one decimal; this is so whether or not the compiler fuses the
  multiplication and the addition, so the errors of binary arithmetic do not build up. An
  Update raises the version by exactly one tenth when it detects a change and gets past the
  bump, and leaves the version file alone otherwise; over any sequence of Updates the
  version is the first one plus one tenth for each such run, so it never decreases.
\<close>

theorem version_steps_by_one_tenth:
  "holds_version s n \<and> n + int (length rs) < 2 ^ 40 \<longrightarrow>
     round1_spec (of_int n / 10 + 1 / 10) = of_int (n + 1) / 10
     \<and> round1 fu (version_of s) = fl (round1_spec (of_int n / 10 + 1 / 10))
     \<and> tenths (round1 fu (version_of s)) = n + 1
     \<and> (bump_ok ft s \<longrightarrow>
          bumpVersion ft fu s
            = Some (fl (round1_spec (of_int n / 10 + 1 / 10)),
                    did WroteVersion
                      (s\<lparr>gitnot := True,
                          version_txt := Number (round1_spec (of_int n / 10 + 1 / 10))\<rparr>)))
     \<and> (if gitnot s \<and> detects ev s \<and> bump_ok ft s
         then holds_version (snd (updateGitnot ev ft s)) (n + 1)
         else version_txt (snd (updateGitnot ev ft s)) = version_txt s)
     \<and> holds_version (runs rs s) (n + int (bumps rs s))
     \<and> bumps rs s \<le> length rs"
proof
  assume a: "holds_version s n \<and> n + int (length rs) < 2 ^ 40"
  then have hv: "holds_version s n" and n: "0 \<le> n" "n < 2 ^ 40" "n < 2 ^ 41" "0 \<le> n + 1" "n + 1 < 2 ^ 41"
    by (auto simp: holds_version_def)
  note sp = round1_spec_tenth [OF n(1)]
  have r: "round1 fu (version_of s) = fl (of_int (n + 1) / 10)"
    using holds_version_of [OF hv] round1_exact [OF n(1,3)] by simp
  have t: "tenths (round1 fu (version_of s)) = n + 1"
    unfolding r using n(4,5) by (rule tenths_fl)
  have b: "bumpVersion ft fu s
            = Some (fl (of_int (n + 1) / 10),
                    did WroteVersion (s\<lparr>gitnot := True, version_txt := Number (of_int (n + 1) / 10)\<rparr>))"
    if "bump_ok ft s"
  proof -
    from that obtain ver s1 where "bumpVersion ft fu s = Some (ver, s1)"
      using bump_ok_iff [of ft s fu] by auto
    with bump_step(1,2) [OF hv n(2) this] show ?thesis by simp
  qed
  have u: "if gitnot s \<and> detects ev s \<and> bump_ok ft s
         then holds_version (snd (updateGitnot ev ft s)) (n + 1)
         else version_txt (snd (updateGitnot ev ft s)) = version_txt s"
    using update_step [OF hv n(2), of ev ft "fst (updateGitnot ev ft s)" "snd (updateGitnot ev ft s)"]
      bump_ok_iff [of ft s "fused ev"]
    by simp
  have r': "round1 fu (version_of s) = fl (round1_spec (of_int n / 10 + 1 / 10))"
    using r by (simp only: sp)
  have b': "bump_ok ft s \<longrightarrow>
          bumpVersion ft fu s
            = Some (fl (round1_spec (of_int n / 10 + 1 / 10)),
                    did WroteVersion
                      (s\<lparr>gitnot := True,
                          version_txt := Number (round1_spec (of_int n / 10 + 1 / 10))\<rparr>))"
    using b by (simp only: sp) blast
  from a have "n + int (length rs) < 2 ^ 40" by simp
  from runs_version [OF hv this]
  have rv: "holds_version (runs rs s) (n + int (bumps rs s))" "bumps rs s \<le> length rs"
    by blast+
  show "round1_spec (of_int n / 10 + 1 / 10) = of_int (n + 1) / 10
     \<and> round1 fu (version_of s) = fl (round1_spec (of_int n / 10 + 1 / 10))
     \<and> tenths (round1 fu (version_of s)) = n + 1
     \<and> (bump_ok ft s \<longrightarrow>
          bumpVersion ft fu s
            = Some (fl (round1_spec (of_int n / 10 + 1 / 10)),
                    did WroteVersion
                      (s\<lparr>gitnot := True,
                          version_txt := Number (round1_spec (of_int n / 10 + 1 / 10))\<rparr>)))
     \<and> (if gitnot s \<and> detects ev s \<and> bump_ok ft s
         then holds_version (snd (updateGitnot ev ft s)) (n + 1)
         else version_txt (snd (updateGitnot ev ft s)) = version_txt s)
     \<and> holds_version (runs rs s) (n + int (bumps rs s))
     \<and> bumps rs s \<le> length rs"
    by (intro conjI) (rule sp r' t b' u rv)+
qed

theorem version_steps_by_one_tenth_witness:
  "holds_version initialized 0
   \<and> 0 + int (length [(one_file, no_faults), (one_file, no_faults)]) < 2 ^ 40
   \<and> round1_spec (of_int 0 / 10 + 1 / 10) = 1 / 10
   \<and> round1 True (version_of initialized) = fl (1 / 10)
   \<and> tenths (round1 True (version_of initialized)) = 1
   \<and> bump_ok no_faults initialized
   \<and> bumpVersion no_faults True initialized
       = Some (fl (1 / 10), did WroteVersion (initialized\<lparr>gitnot := True, version_txt := Number (1 / 10)\<rparr>))
   \<and> gitnot initialized \<and> detects one_file initialized
   \<and> holds_version (snd (updateGitnot one_file no_faults initialized)) 1
   \<and> bumps [(one_file, no_faults), (one_file, no_faults)] initialized = 1
   \<and> holds_version (runs [(one_file, no_faults), (one_file, no_faults)] initialized) 1"
proof -
  have e: "bump_ok no_faults initialized \<and> gitnot initialized \<and> detects one_file initialized
    \<and> bumps [(one_file, no_faults), (one_file, no_faults)] initialized = 1
    \<and> tenths (fl (1 / 10)) = 1"
    by code_simp
  have v: "holds_version initialized 0"
    by (simp add: holds_version_def initialized_def)
  have h: "holds_version initialized 0
    \<and> 0 + int (length [(one_file, no_faults), (one_file, no_faults)]) < 2 ^ 40"
    using v by simp
  note c = version_steps_by_one_tenth [where s = initialized and n = 0
        and rs = "[(one_file, no_faults), (one_file, no_faults)]" and fu = True
        and ft = no_faults and ev = one_file, THEN mp, OF h]
  have r: "round1_spec (1 / 10) = 1 / 10"
    using c [THEN conjunct1] by simp
  show ?thesis
    using c e v by (simp del: bumps.simps runs.simps add: r)
qed

end
